theory Spec2Isabelle
  imports Main "HOL-Library.Sublist"
begin

section \<open>GitBackup: listing client, command runner, orchestrator, session driver\<close>

text \<open>
  A shallow embedding of the core of \<^verbatim>\<open>src/GitBackup.pyw\<close> (lines 53 to 188):
  \<^verbatim>\<open>get_user_repos\<close>, \<^verbatim>\<open>run_git_command\<close>, \<^verbatim>\<open>clone_or_pull\<close> and
  \<^verbatim>\<open>process_repos\<close>.

  The program talks to three things outside itself: the HTTP transport
  (\<^verbatim>\<open>urllib.request.urlopen\<close>), the file system (\<^verbatim>\<open>os.path\<close>) and the
  subprocess launcher (\<^verbatim>\<open>subprocess.Popen\<close>). They are parameters of the model,
  collected in the record \<open>env\<close>; the local machine (file system and whatever
  the subprocesses change) is a state of an arbitrary type \<open>'w\<close> that is passed
  through. Every function returns, next to its result, the list of events it
  caused, in the order in which they happen: callback invocations, HTTP requests
  and invocations of the command runner.
\<close>

subsection \<open>Values decoded from JSON\<close>

text \<open>
  What \<^verbatim>\<open>json.loads\<close> returns: \<^verbatim>\<open>None\<close>, a bool, a number, a string, a list or
  a dict. Numbers are integers here (the program treats a floating point number
  as it treats an integer: it tests it for zero and cannot iterate it), and a
  dict is the association list of its keys, looked up with \<open>map_of\<close>.
\<close>

datatype json =
    JNull
  | JBool bool
  | JInt int
  | JStr string
  | JArr "json list"
  | JObj "(string \<times> json) list"

text \<open>Python's truth value of a decoded value, negated: \<^verbatim>\<open>not data\<close>.\<close>

fun falsy :: "json \<Rightarrow> bool" where
  "falsy JNull = True"
| "falsy (JBool b) = (\<not> b)"
| "falsy (JInt i) = (i = 0)"
| "falsy (JStr s) = (s = [])"
| "falsy (JArr xs) = (xs = [])"
| "falsy (JObj kvs) = (kvs = [])"

subsection \<open>Exceptions and the errors of the listing client\<close>

text \<open>
  The exceptions that reach an \<^verbatim>\<open>except\<close> clause of the program.
  \<open>HTTPError code text\<close> is \<^verbatim>\<open>urllib.error.HTTPError\<close> with its \<^verbatim>\<open>code\<close> and
  the text \<^verbatim>\<open>str(e)\<close>; \<open>KeyError k\<close> is a missing dict key; \<open>TypeError\<close> is an
  operation on a value of the wrong type; \<open>OtherException text\<close> is any other
  subclass of \<^verbatim>\<open>Exception\<close> (URL errors, decoding errors, OS errors), with its text.
\<close>

datatype exn =
    HTTPError nat string
  | KeyError string
  | TypeError
  | OtherException string

text \<open>
  \<^verbatim>\<open>get_user_repos\<close> raises \<^verbatim>\<open>Exception(message)\<close> at four places (lines 80, 82, 84
  and 86). The constructors name the four places as the specification does; the
  message of each is a fixed text around the argument:
  \<^item> \<open>UserNotFound username\<close>, line 80: the user does not exist or has no public repositories;
  \<^item> \<open>RateLimited\<close>, line 82: the API rate limit is used up, try later or use a token;
  \<^item> \<open>APIRequestFailed text\<close>, line 84: the API request failed, followed by \<^verbatim>\<open>str(e)\<close>;
  \<^item> \<open>TransportError e\<close>, line 86: an error happened, followed by \<^verbatim>\<open>str(e)\<close>.
\<close>

datatype error =
    UserNotFound string
  | RateLimited
  | APIRequestFailed string
  | TransportError exn

subsection \<open>Requests and responses\<close>

record request =
  url :: string
  headers :: "(string \<times> string) list"

text \<open>
  The body of a response after \<^verbatim>\<open>json.loads(response.read().decode())\<close>: the
  decoded value, or the exception that reading, decoding or parsing raised.
\<close>

datatype body = Unreadable exn | Json json

text \<open>
  What \<^verbatim>\<open>urlopen(req)\<close> does: it raises, or it returns a response with a body
  and, possibly, a \<^verbatim>\<open>Link\<close> header.
\<close>

datatype http_result = Raises exn | Response body "string option"

subsection \<open>Strings\<close>

text \<open>Python's \<^verbatim>\<open>str(n)\<close> for a natural number.\<close>

definition digit :: "nat \<Rightarrow> char" where
  "digit d = char_of (48 + d)"

fun str_nat :: "nat \<Rightarrow> string" where
  "str_nat n = (if n < 10 then [digit n] else str_nat (n div 10) @ [digit (n mod 10)])"

declare str_nat.simps [simp del]

text \<open>Python's \<^verbatim>\<open>needle in haystack\<close> on strings.\<close>

fun contains :: "string \<Rightarrow> string \<Rightarrow> bool" where
  "contains needle [] = (needle = [])"
| "contains needle (c # cs) = (prefix needle (c # cs) \<or> contains needle cs)"

subsection \<open>The listing client: \<^verbatim>\<open>get_user_repos\<close>\<close>

text \<open>The dict built at lines 69 to 72; the two values are whatever the server sent.\<close>

record repo_info =
  name :: json
  clone_url :: json

text \<open>
  Lines 59 to 61: the headers of a request. \<^verbatim>\<open>if token:\<close> is false for \<^verbatim>\<open>None\<close>
  and for the empty string.
\<close>

fun auth_headers :: "string option \<Rightarrow> (string \<times> string) list" where
  "auth_headers None = []"
| "auth_headers (Some t) = (if t \<noteq> [] then [(''Authorization'', ''token '' @ t)] else [])"

text \<open>Lines 56, 58 and 63: the request for a page, with \<^verbatim>\<open>per_page = 100\<close>.\<close>

definition per_page :: nat where
  "per_page = 100"

definition mk_request :: "string \<Rightarrow> string option \<Rightarrow> nat \<Rightarrow> request" where
  "mk_request username token page =
     \<lparr> url = ''https://api.github.com/users/'' @ username @ ''/repos?page='' @ str_nat page
             @ ''&per_page='' @ str_nat per_page,
       headers = auth_headers token \<rparr>"

text \<open>
  \<^verbatim>\<open>for repo in data\<close>: a list gives its elements, a dict its keys, a string its
  characters; a number or a bool is not iterable.
\<close>

fun items_of :: "json \<Rightarrow> exn + json list" where
  "items_of (JArr xs) = Inr xs"
| "items_of (JObj kvs) = Inr (map (\<lambda>kv. JStr (fst kv)) kvs)"
| "items_of (JStr s) = Inr (map (\<lambda>c. JStr [c]) s)"
| "items_of _ = Inl TypeError"

text \<open>
  Lines 69 to 72 for one element: \<^verbatim>\<open>repo["name"]\<close>, then \<^verbatim>\<open>repo["clone_url"]\<close>.
  Only a dict can be indexed by a string.
\<close>

fun repo_of :: "json \<Rightarrow> exn + repo_info" where
  "repo_of (JObj kvs) =
     (case map_of kvs ''name'' of
        None \<Rightarrow> Inl (KeyError ''name'')
      | Some n \<Rightarrow>
          (case map_of kvs ''clone_url'' of
             None \<Rightarrow> Inl (KeyError ''clone_url'')
           | Some u \<Rightarrow> Inr \<lparr> name = n, clone_url = u \<rparr>))"
| "repo_of _ = Inl TypeError"

text \<open>The \<^verbatim>\<open>for\<close> loop of lines 68 to 72: it appends to \<open>repos\<close> until an element raises.\<close>

fun append_repos :: "json list \<Rightarrow> repo_info list \<Rightarrow> exn + repo_info list" where
  "append_repos [] repos = Inr repos"
| "append_repos (x # xs) repos =
     (case repo_of x of
        Inl e \<Rightarrow> Inl e
      | Inr r \<Rightarrow> append_repos xs (repos @ [r]))"

text \<open>Lines 73 and 74: \<^verbatim>\<open>link_header and 'rel="next"' in link_header\<close>.\<close>

definition rel_next :: string where
  "rel_next = ''rel='' @ [CHR 0x22] @ ''next'' @ [CHR 0x22]"

fun has_next :: "string option \<Rightarrow> bool" where
  "has_next None = False"
| "has_next (Some l) = (l \<noteq> [] \<and> contains rel_next l)"

text \<open>
  The two \<^verbatim>\<open>except\<close> clauses of lines 78 to 86, which every exception raised
  inside the \<^verbatim>\<open>try\<close> block of lines 62 to 77 goes through: the first takes an
  \<^verbatim>\<open>HTTPError\<close>, the second every other exception.
\<close>

fun handle_exn :: "string \<Rightarrow> exn \<Rightarrow> error" where
  "handle_exn username (HTTPError code text) =
     (if code = 404 then UserNotFound username
      else if code = 403 \<and> contains ''rate limit'' text then RateLimited
      else APIRequestFailed text)"
| "handle_exn username e = TransportError e"

text \<open>
  The \<^verbatim>\<open>while True\<close> loop of lines 57 to 86. It has no bound of its own: a
  server that answers every page with a non-empty body and a next link keeps it
  running. The model counts the iterations down from \<open>fuel\<close>; the result \<open>None\<close>
  says that the loop was still running when the fuel ran out. The requests sent
  so far are returned in both cases.
\<close>

fun get_user_repos_loop ::
  "nat \<Rightarrow> (request \<Rightarrow> http_result) \<Rightarrow> string \<Rightarrow> string option \<Rightarrow> nat \<Rightarrow> repo_info list
     \<Rightarrow> request list \<Rightarrow> request list \<times> (error + repo_info list) option" where
  "get_user_repos_loop 0 urlopen username token page repos reqs = (reqs, None)"
| "get_user_repos_loop (Suc fuel) urlopen username token page repos reqs =
     (let req = mk_request username token page;
          reqs' = reqs @ [req]
      in case urlopen req of
           Raises e \<Rightarrow> (reqs', Some (Inl (handle_exn username e)))
         | Response (Unreadable e) link_header \<Rightarrow> (reqs', Some (Inl (handle_exn username e)))
         | Response (Json data) link_header \<Rightarrow>
             if falsy data then (reqs', Some (Inr repos))
             else
               (case items_of data of
                  Inl e \<Rightarrow> (reqs', Some (Inl (handle_exn username e)))
                | Inr items \<Rightarrow>
                    (case append_repos items repos of
                       Inl e \<Rightarrow> (reqs', Some (Inl (handle_exn username e)))
                     | Inr repos' \<Rightarrow>
                         if has_next link_header
                         then get_user_repos_loop fuel urlopen username token (page + 1) repos' reqs'
                         else (reqs', Some (Inr repos')))))"

definition get_user_repos ::
  "nat \<Rightarrow> (request \<Rightarrow> http_result) \<Rightarrow> string \<Rightarrow> string option
     \<Rightarrow> request list \<times> (error + repo_info list) option" where
  "get_user_repos fuel urlopen username token =
     get_user_repos_loop fuel urlopen username token 1 [] []"

subsection \<open>Events\<close>

text \<open>
  The four status texts that \<^verbatim>\<open>clone_or_pull\<close> passes to the status callback
  (lines 123, 132, 135 and 142): processing, success, failure, skipped.
\<close>

datatype repo_status = Processing | Success | Failed | Skipped

text \<open>
  The lines passed to the output callback. Each constructor is one format string
  of the source, with its arguments:
  \<^item> \<open>LogFetching username\<close>, line 160: fetching the repository list of the user;
  \<^item> \<open>LogError e\<close>, line 164: error, followed by the message of \<open>e\<close>;
  \<^item> \<open>LogNoRepos\<close>, line 169: no repository found;
  \<^item> \<open>LogFound n\<close>, line 173: \<open>n\<close> repositories found, processing starts;
  \<^item> \<open>LogClone repo_url local_path\<close>, line 127: cloning the URL to the path;
  \<^item> \<open>LogSkip local_path\<close>, line 140: skipped, the path is not a Git repository;
  \<^item> \<open>LogPull local_path\<close>, line 145: pulling the path;
  \<^item> \<open>LogSummary s f\<close>, line 187: done, \<open>s\<close> succeeded and \<open>f\<close> failed;
  \<^item> \<open>LogLine line\<close>, line 109: a line of a subprocess's output.
\<close>

datatype log_line =
    LogFetching string
  | LogError error
  | LogNoRepos
  | LogFound nat
  | LogClone json string
  | LogSkip string
  | LogPull string
  | LogSummary nat nat
  | LogLine string

text \<open>
  What a run does that can be seen from outside, in order: a request sent by
  \<^verbatim>\<open>get_user_repos\<close>, an invocation of the status callback, an invocation of the
  output callback, and an invocation of \<^verbatim>\<open>run_git_command\<close> with its argument
  vector and working directory.
\<close>

datatype event =
    Request request
  | Status string repo_status
  | Output log_line
  | RunGit "json list" "string option"

text \<open>
  The callbacks are optional arguments, tested with \<^verbatim>\<open>if status_callback:\<close> and
  \<^verbatim>\<open>if output_callback:\<close>. The model says whether each is supplied; a supplied
  callback records its arguments as an event and does not raise.
\<close>

definition status_event :: "bool \<Rightarrow> string \<Rightarrow> repo_status \<Rightarrow> event list" where
  "status_event status_callback repo_name s = (if status_callback then [Status repo_name s] else [])"

definition output_event :: "bool \<Rightarrow> log_line \<Rightarrow> event list" where
  "output_event output_callback l = (if output_callback then [Output l] else [])"

subsection \<open>The environment\<close>

text \<open>
  What \<^verbatim>\<open>subprocess.Popen\<close>, reading the output and \<^verbatim>\<open>process.wait()\<close> do:
  the launch raises; or the process writes some lines and reading the next one
  raises; or the process writes its lines and exits with a return code.
\<close>

datatype popen_result =
    LaunchError exn
  | ReadError "string list" exn
  | Exited "string list" int

text \<open>
  The environment of a run. \<open>urlopen\<close> answers a request; a run asks for every
  page at most once, so an answer is a function of the request. \<open>path_join\<close>
  and \<open>normpath\<close> are the functions of \<^verbatim>\<open>os.path\<close> of the platform.
  \<open>path_exists\<close> and \<open>path_isdir\<close> read the machine; \<open>popen\<close> runs a
  subprocess with an argument vector and a working directory, and changes the
  machine.
\<close>

record 'w env =
  urlopen :: "request \<Rightarrow> http_result"
  path_join :: "string \<Rightarrow> string \<Rightarrow> string"
  normpath :: "string \<Rightarrow> string"
  path_exists :: "'w \<Rightarrow> string \<Rightarrow> bool"
  path_isdir :: "'w \<Rightarrow> string \<Rightarrow> bool"
  popen :: "string list \<Rightarrow> string option \<Rightarrow> 'w \<Rightarrow> popen_result \<times> 'w"

subsection \<open>The command runner: \<^verbatim>\<open>run_git_command\<close>\<close>

text \<open>
  Python's \<^verbatim>\<open>line.rstrip()\<close>: trailing whitespace is removed. A \<open>char\<close> stands
  for a code point below 256; the whitespace among them is 9 to 13, 28 to 32, 133
  and 160.
\<close>

definition is_space :: "char \<Rightarrow> bool" where
  "is_space c = (let n = of_char c :: nat in (9 \<le> n \<and> n \<le> 13) \<or> (28 \<le> n \<and> n \<le> 32) \<or> n = 133 \<or> n = 160)"

definition rstrip :: "string \<Rightarrow> string" where
  "rstrip s = rev (dropWhile is_space (rev s))"

text \<open>Lines 112 and 113: the output lines joined, with a newline between two lines.\<close>

fun join_lines :: "string list \<Rightarrow> string" where
  "join_lines [] = []"
| "join_lines [l] = l"
| "join_lines (l # m # ls) = l @ [CHR 0x0A] @ join_lines (m # ls)"

text \<open>
  \<^verbatim>\<open>Popen\<close> takes a list of strings; an element of another type makes it raise
  \<^verbatim>\<open>TypeError\<close> before anything is launched.
\<close>

fun arg_of :: "json \<Rightarrow> string option" where
  "arg_of (JStr s) = Some s"
| "arg_of _ = None"

fun argv_of :: "json list \<Rightarrow> string list option" where
  "argv_of [] = Some []"
| "argv_of (a # as) =
     (case arg_of a of
        None \<Rightarrow> None
      | Some s \<Rightarrow> (case argv_of as of None \<Rightarrow> None | Some ss \<Rightarrow> Some (s # ss)))"

text \<open>
  The second component of the result: the joined output lines (lines 112 and
  113), or \<^verbatim>\<open>str(e)\<close> of the exception caught at line 114.
\<close>

datatype git_output = Combined string | ErrorDescription exn

text \<open>
  Lines 89 to 115. The whole body is inside \<^verbatim>\<open>try ... except Exception\<close>, so
  each way in which the launch or the reading fails ends in the pair of line 115.
  The first event, \<open>RunGit\<close>, records the invocation itself.
\<close>

definition run_git_command ::
  "'w env \<Rightarrow> json list \<Rightarrow> string option \<Rightarrow> bool \<Rightarrow> 'w
     \<Rightarrow> (bool \<times> git_output) \<times> event list \<times> 'w" where
  "run_git_command env cmd cwd output_callback w =
     (case argv_of cmd of
        None \<Rightarrow> ((False, ErrorDescription TypeError), [RunGit cmd cwd], w)
      | Some argv \<Rightarrow>
          (case popen env argv cwd w of
             (LaunchError e, w') \<Rightarrow> ((False, ErrorDescription e), [RunGit cmd cwd], w')
           | (ReadError lines e, w') \<Rightarrow>
               ((False, ErrorDescription e),
                RunGit cmd cwd # concat (map (\<lambda>l. output_event output_callback (LogLine (rstrip l))) lines),
                w')
           | (Exited lines returncode, w') \<Rightarrow>
               (if returncode \<noteq> 0
                then (False, Combined (join_lines (map rstrip lines)))
                else (True, Combined (join_lines (map rstrip lines))),
                RunGit cmd cwd # concat (map (\<lambda>l. output_event output_callback (LogLine (rstrip l))) lines),
                w')))"

subsection \<open>The orchestrator: \<^verbatim>\<open>clone_or_pull\<close>\<close>

text \<open>
  Lines 117 to 154. \<^verbatim>\<open>os.path.join(base_dir, repo_name)\<close> raises \<^verbatim>\<open>TypeError\<close>
  when the name is not a string; nothing in \<^verbatim>\<open>clone_or_pull\<close> or its caller
  catches it. The file system is read before the subprocess runs.
\<close>

definition clone_or_pull ::
  "'w env \<Rightarrow> repo_info \<Rightarrow> string \<Rightarrow> bool \<Rightarrow> bool \<Rightarrow> 'w \<Rightarrow> (exn + bool) \<times> event list \<times> 'w" where
  "clone_or_pull env repo_info base_dir status_callback output_callback w =
     (case name repo_info of
        JStr repo_name \<Rightarrow>
          (let repo_url = clone_url repo_info;
               local_path = normpath env (path_join env base_dir repo_name);
               ev0 = status_event status_callback repo_name Processing
           in if \<not> path_exists env w local_path then
                (case run_git_command env [JStr ''git'', JStr ''clone'', repo_url, JStr local_path]
                        None output_callback w of
                   ((success, output), ev, w') \<Rightarrow>
                     (Inr success,
                      ev0 @ output_event output_callback (LogClone repo_url local_path) @ ev
                        @ status_event status_callback repo_name (if success then Success else Failed),
                      w'))
              else if \<not> path_isdir env w (path_join env local_path ''.git'') then
                (Inr False,
                 ev0 @ output_event output_callback (LogSkip local_path)
                   @ status_event status_callback repo_name Skipped,
                 w)
              else
                (case run_git_command env [JStr ''git'', JStr ''pull''] (Some local_path)
                        output_callback w of
                   ((success, output), ev, w') \<Rightarrow>
                     (Inr success,
                      ev0 @ output_event output_callback (LogPull local_path) @ ev
                        @ status_event status_callback repo_name (if success then Success else Failed),
                      w')))
      | _ \<Rightarrow> (Inl TypeError, [], w))"

subsection \<open>The session driver: \<^verbatim>\<open>process_repos\<close>\<close>

text \<open>
  The \<^verbatim>\<open>for\<close> loop of lines 177 to 184, with the two counters. An exception of
  \<^verbatim>\<open>clone_or_pull\<close> leaves the loop.
\<close>

fun process_loop ::
  "'w env \<Rightarrow> repo_info list \<Rightarrow> string \<Rightarrow> bool \<Rightarrow> bool \<Rightarrow> nat \<Rightarrow> nat \<Rightarrow> 'w
     \<Rightarrow> (exn + nat \<times> nat) \<times> event list \<times> 'w" where
  "process_loop env [] base_dir status_callback output_callback success_count fail_count w =
     (Inr (success_count, fail_count), [], w)"
| "process_loop env (repo # repos) base_dir status_callback output_callback success_count fail_count w =
     (case clone_or_pull env repo base_dir status_callback output_callback w of
        (Inl e, ev, w') \<Rightarrow> (Inl e, ev, w')
      | (Inr ok, ev, w') \<Rightarrow>
          (case (if ok
                 then process_loop env repos base_dir status_callback output_callback
                        (success_count + 1) fail_count w'
                 else process_loop env repos base_dir status_callback output_callback
                        success_count (fail_count + 1) w') of
             (r, ev', w'') \<Rightarrow> (r, ev @ ev', w'')))"

text \<open>
  Lines 156 to 188. The result is \<open>None\<close> when the listing was still running
  at the end of the fuel, \<open>Some (Inl e)\<close> when an exception leaves the function,
  and \<open>Some (Inr b)\<close> when it returns \<open>b\<close>.
\<close>

definition process_repos ::
  "'w env \<Rightarrow> nat \<Rightarrow> string \<Rightarrow> string \<Rightarrow> string option \<Rightarrow> bool \<Rightarrow> bool \<Rightarrow> 'w
     \<Rightarrow> (exn + bool) option \<times> event list \<times> 'w" where
  "process_repos env fuel username base_dir token status_callback output_callback w =
     (let ev0 = output_event output_callback (LogFetching username)
      in case get_user_repos fuel (urlopen env) username token of
           (reqs, None) \<Rightarrow> (None, ev0 @ map Request reqs, w)
         | (reqs, Some (Inl e)) \<Rightarrow>
             (Some (Inr False), ev0 @ map Request reqs @ output_event output_callback (LogError e), w)
         | (reqs, Some (Inr repos)) \<Rightarrow>
             if repos = [] then
               (Some (Inr True), ev0 @ map Request reqs @ output_event output_callback LogNoRepos, w)
             else
               (case process_loop env repos base_dir status_callback output_callback 0 0 w of
                  (Inl e, ev, w') \<Rightarrow>
                    (Some (Inl e),
                     ev0 @ map Request reqs @ output_event output_callback (LogFound (length repos)) @ ev,
                     w')
                | (Inr (success_count, fail_count), ev, w') \<Rightarrow>
                    (Some (Inr (fail_count = 0)),
                     ev0 @ map Request reqs @ output_event output_callback (LogFound (length repos)) @ ev
                       @ output_event output_callback (LogSummary success_count fail_count),
                     w')))"

subsection \<open>Reading a list of events\<close>

text \<open>
  The invocations of the status callback, of the output callback and of the
  command runner, and the requests, each in order.
\<close>

fun statuses :: "event list \<Rightarrow> (string \<times> repo_status) list" where
  "statuses [] = []"
| "statuses (Status n s # es) = (n, s) # statuses es"
| "statuses (e # es) = statuses es"

fun outputs :: "event list \<Rightarrow> log_line list" where
  "outputs [] = []"
| "outputs (Output l # es) = l # outputs es"
| "outputs (e # es) = outputs es"

fun git_runs :: "event list \<Rightarrow> (json list \<times> string option) list" where
  "git_runs [] = []"
| "git_runs (RunGit cmd cwd # es) = (cmd, cwd) # git_runs es"
| "git_runs (e # es) = git_runs es"

fun requests :: "event list \<Rightarrow> request list" where
  "requests [] = []"
| "requests (Request r # es) = r # requests es"
| "requests (e # es) = requests es"

text \<open>
  The status of every repository after a list of status events, as the graphical
  front end keeps it: a later event for a name replaces the earlier one.
\<close>

fun status_map :: "(string \<times> repo_status) list \<Rightarrow> (string \<rightharpoonup> repo_status) \<Rightarrow> (string \<rightharpoonup> repo_status)" where
  "status_map [] m = m"
| "status_map ((n, s) # xs) m = status_map xs (m(n \<mapsto> s))"

text \<open>How many status events carry a status with the property \<open>P\<close>.\<close>

definition tally :: "(repo_status \<Rightarrow> bool) \<Rightarrow> event list \<Rightarrow> nat" where
  "tally P ev = length (filter P (map snd (statuses ev)))"

subsection \<open>Pages of a listing\<close>

text \<open>
  Two kinds of answer to the request for a page, for stating what a server with
  a listing of several pages does. \<open>more_page r rs\<close>: the answer \<open>r\<close> is a
  non-empty array whose elements give the repositories \<open>rs\<close>, and its
  \<^verbatim>\<open>Link\<close> header announces a next page. \<open>last_page r rs\<close>: the answer is an
  array, possibly empty, that gives \<open>rs\<close>, and it is empty or no next page
  is announced.
\<close>

definition more_page :: "http_result \<Rightarrow> repo_info list \<Rightarrow> bool" where
  "more_page r rs =
     (case r of
        Response (Json (JArr items)) link_header \<Rightarrow>
          items \<noteq> [] \<and> append_repos items [] = Inr rs \<and> has_next link_header
      | _ \<Rightarrow> False)"

definition last_page :: "http_result \<Rightarrow> repo_info list \<Rightarrow> bool" where
  "last_page r rs =
     (case r of
        Response (Json (JArr items)) link_header \<Rightarrow>
          append_repos items [] = Inr rs \<and> (items = [] \<or> \<not> has_next link_header)
      | _ \<Rightarrow> False)"

text \<open>
  \<open>page_error r\<close>: the answer \<open>r\<close> makes the body of the \<^verbatim>\<open>try\<close> block raise:
  the request raises, the body cannot be read or parsed, the decoded value cannot
  be iterated, or one of its elements has no \<^verbatim>\<open>name\<close> or no \<^verbatim>\<open>clone_url\<close>.
\<close>

fun page_error :: "http_result \<Rightarrow> bool" where
  "page_error (Raises e) = True"
| "page_error (Response (Unreadable e) link_header) = True"
| "page_error (Response (Json data) link_header) =
     (\<not> falsy data \<and>
      (case items_of data of
         Inl e \<Rightarrow> True
       | Inr items \<Rightarrow> (case append_repos items [] of Inl e \<Rightarrow> True | Inr rs \<Rightarrow> False)))"

text \<open>
  The status events of a session in which the repositories named \<open>ns\<close> end
  with the statuses \<open>ts\<close>: for each repository, processing and then its last
  status.
\<close>

fun status_pairs :: "string list \<Rightarrow> repo_status list \<Rightarrow> (string \<times> repo_status) list" where
  "status_pairs (n # ns) (t # ts) = (n, Processing) # (n, t) # status_pairs ns ts"
| "status_pairs ns ts = []"

subsection \<open>A concrete environment\<close>

text \<open>
  A user \<^verbatim>\<open>octo\<close> with the repositories alpha, beta and gamma on two pages, and
  a machine on which a directory is a path in a list: beta is a working copy,
  gamma is a plain directory, alpha is absent. Cloning creates the directory and
  its \<^verbatim>\<open>.git\<close>; cloning delta fails.
\<close>

definition octo_repo :: "string \<Rightarrow> json" where
  "octo_repo n = JObj [(''id'', JInt 7), (''name'', JStr n),
                       (''clone_url'', JStr (''https://github.com/octo/'' @ n @ ''.git''))]"

definition octo_info :: "string \<Rightarrow> repo_info" where
  "octo_info n = \<lparr> name = JStr n, clone_url = JStr (''https://github.com/octo/'' @ n @ ''.git'') \<rparr>"

definition next_link :: string where
  "next_link = ''<https://api.github.com/user/1/repos?page=2&per_page=100>; '' @ rel_next"

definition not_found :: http_result where
  "not_found = Raises (HTTPError 404 ''HTTP Error 404: Not Found'')"

definition octo_urlopen :: "request \<Rightarrow> http_result" where
  "octo_urlopen r =
     (if url r = url (mk_request ''octo'' None 1)
      then Response (Json (JArr [octo_repo ''alpha'', octo_repo ''beta''])) (Some next_link)
      else if url r = url (mk_request ''octo'' None 2)
      then Response (Json (JArr [octo_repo ''gamma''])) None
      else not_found)"

text \<open>The same user with a first page of 100 repositories and a second page of one.\<close>

definition full_urlopen :: "request \<Rightarrow> http_result" where
  "full_urlopen r =
     (if url r = url (mk_request ''octo'' None 1)
      then Response (Json (JArr (replicate 100 (octo_repo ''alpha'')))) (Some next_link)
      else if url r = url (mk_request ''octo'' None 2)
      then Response (Json (JArr [octo_repo ''beta''])) None
      else not_found)"

definition full_rs :: "nat \<Rightarrow> repo_info list" where
  "full_rs p = (if p = 1 then replicate 100 (octo_info ''alpha'') else [octo_info ''beta''])"

definition octo_rs :: "nat \<Rightarrow> repo_info list" where
  "octo_rs p = (if p = 1 then [octo_info ''alpha'', octo_info ''beta''] else [octo_info ''gamma''])"

text \<open>Servers that fail at the second page, or at once.\<close>

definition gone_urlopen :: "request \<Rightarrow> http_result" where
  "gone_urlopen r =
     (if url r = url (mk_request ''octo'' None 1)
      then Response (Json (JArr [octo_repo ''alpha'', octo_repo ''beta''])) (Some next_link)
      else not_found)"

definition limited_urlopen :: "request \<Rightarrow> http_result" where
  "limited_urlopen r = Raises (HTTPError 403 ''HTTP Error 403: rate limit exceeded'')"

definition forbidden_urlopen :: "request \<Rightarrow> http_result" where
  "forbidden_urlopen r = Raises (HTTPError 403 ''HTTP Error 403: Forbidden'')"

definition broken_urlopen :: "request \<Rightarrow> http_result" where
  "broken_urlopen r =
     (if url r = url (mk_request ''octo'' None 1)
      then Response (Json (JArr [octo_repo ''alpha'', octo_repo ''beta''])) (Some next_link)
      else Response (Json (JArr [octo_repo ''gamma'', JObj [(''name'', JStr ''delta'')]])) None)"

definition demo_popen :: "string list \<Rightarrow> string option \<Rightarrow> string list \<Rightarrow> popen_result \<times> string list" where
  "demo_popen argv cwd w =
     (case argv of
        [g, c, u, p] \<Rightarrow>
          if u = ''https://github.com/octo/delta.git''
          then (Exited [''fatal: repository not found  ''] 128, w)
          else (Exited [''Cloning into '' @ p @ ''...  '', ''done.''] 0, p # (p @ ''/.git'') # w)
      | _ \<Rightarrow> (Exited [''Already up to date.''] 0, w))"

definition demo_env :: "string list env" where
  "demo_env =
     \<lparr> urlopen = octo_urlopen,
       path_join = (\<lambda>a b. a @ ''/'' @ b),
       normpath = (\<lambda>p. p),
       path_exists = (\<lambda>w p. p \<in> set w),
       path_isdir = (\<lambda>w p. p \<in> set w),
       popen = demo_popen \<rparr>"

definition backup_dirs :: "string list" where
  "backup_dirs = [''/backup/beta'', ''/backup/beta/.git'', ''/backup/gamma'']"

text \<open>The machine of \<open>demo_env\<close> with each of the other servers.\<close>

definition gone_env :: "string list env" where
  "gone_env = demo_env \<lparr> urlopen := gone_urlopen \<rparr>"

definition broken_env :: "string list env" where
  "broken_env = demo_env \<lparr> urlopen := broken_urlopen \<rparr>"

text \<open>
  Machines on which \<^verbatim>\<open>git\<close> cannot be launched, or writes a line that cannot be
  decoded; and two argument vectors.
\<close>

definition nogit_env :: "string list env" where
  "nogit_env = demo_env \<lparr> popen :=
     (\<lambda>argv cwd w. (LaunchError (OtherException ''[Errno 2] No such file or directory: git''), w)) \<rparr>"

definition garbled_env :: "string list env" where
  "garbled_env = demo_env \<lparr> popen :=
     (\<lambda>argv cwd w. (ReadError [''remote: Counting objects  ''] (OtherException ''codec cannot decode byte''), w)) \<rparr>"

definition clone_delta :: "json list" where
  "clone_delta = [JStr ''git'', JStr ''clone'', JStr ''https://github.com/octo/delta.git'', JStr ''/backup/delta'']"

definition clone_alpha :: "json list" where
  "clone_alpha = [JStr ''git'', JStr ''clone'', JStr ''https://github.com/octo/alpha.git'', JStr ''/backup/alpha'']"

text \<open>
  A transport that refuses a header value ending in a carriage return and quotes
  the value in the text of its exception, as \<^verbatim>\<open>http.client\<close> does
  (\<^verbatim>\<open>putheader\<close> raises \<^verbatim>\<open>ValueError\<close> with the text \<^verbatim>\<open>Invalid header value\<close> and
  the \<^verbatim>\<open>repr\<close> of the value, which \<^verbatim>\<open>urlopen\<close> lets through). \<open>header_repr\<close>
  is the \<^verbatim>\<open>repr\<close> of the bytes: quoted, with a carriage return written as a
  backslash and the letter r.
\<close>

definition header_repr :: "string \<Rightarrow> string" where
  "header_repr v =
     ''b'' @ [CHR 0x27] @ concat (map (\<lambda>c. if c = CHR 0x0D then [CHR 0x5C, CHR ''r''] else [c]) v)
       @ [CHR 0x27]"

definition strict_urlopen :: "request \<Rightarrow> http_result" where
  "strict_urlopen r =
     (case headers r of
        [(k, v)] \<Rightarrow>
          if v \<noteq> [] \<and> last v = CHR 0x0D
          then Raises (OtherException (''Invalid header value '' @ header_repr v))
          else octo_urlopen r
      | _ \<Rightarrow> octo_urlopen r)"

definition strict_env :: "string list env" where
  "strict_env = demo_env \<lparr> urlopen := strict_urlopen \<rparr>"

section \<open>Lemmas\<close>

subsection \<open>The listing loop, page by page\<close>

lemma append_repos_acc:
  "append_repos xs acc = (case append_repos xs [] of Inl e \<Rightarrow> Inl e | Inr rs \<Rightarrow> Inr (acc @ rs))"
proof (induction xs arbitrary: acc)
  case Nil
  show ?case by simp
next
  case (Cons x xs)
  show ?case
  proof (cases "repo_of x")
    case (Inl e)
    then show ?thesis by simp
  next
    case (Inr r)
    have "append_repos (x # xs) acc = append_repos xs (acc @ [r])"
      using Inr by simp
    also have "\<dots> = (case append_repos xs [] of Inl e \<Rightarrow> Inl e | Inr rs \<Rightarrow> Inr ((acc @ [r]) @ rs))"
      by (rule Cons.IH)
    finally have lhs: "append_repos (x # xs) acc =
        (case append_repos xs [] of Inl e \<Rightarrow> Inl e | Inr rs \<Rightarrow> Inr ((acc @ [r]) @ rs))" .
    have "append_repos (x # xs) [] = append_repos xs [r]"
      using Inr by simp
    also have "\<dots> = (case append_repos xs [] of Inl e \<Rightarrow> Inl e | Inr rs \<Rightarrow> Inr ([r] @ rs))"
      by (rule Cons.IH)
    finally have rhs: "append_repos (x # xs) [] =
        (case append_repos xs [] of Inl e \<Rightarrow> Inl e | Inr rs \<Rightarrow> Inr ([r] @ rs))" .
    show ?thesis
      unfolding lhs rhs by (simp split: sum.splits)
  qed
qed

lemma append_repos_all:
  assumes "append_repos items acc = Inr rs" and "x \<in> set items"
  shows "\<exists>r. repo_of x = Inr r"
  using assms
proof (induction items arbitrary: acc)
  case Nil
  then show ?case by simp
next
  case (Cons y ys)
  show ?case
  proof (cases "repo_of y")
    case (Inl e)
    then show ?thesis using Cons.prems by simp
  next
    case (Inr r)
    then have rest: "append_repos ys (acc @ [r]) = Inr rs"
      using Cons.prems(1) by simp
    show ?thesis
    proof (cases "x = y")
      case True
      then show ?thesis using Inr by simp
    next
      case False
      then have "x \<in> set ys" using Cons.prems(2) by simp
      then show ?thesis by (rule Cons.IH [OF rest])
    qed
  qed
qed

lemma missing_key_page_error:
  assumes "JObj kvs \<in> set items"
    and "map_of kvs ''name'' = None \<or> map_of kvs ''clone_url'' = None"
  shows "page_error (Response (Json (JArr items)) link_header)"
proof -
  have bad: "\<exists>e. repo_of (JObj kvs) = Inl e"
    using assms(2) by (auto split: option.splits)
  have ne: "items \<noteq> []" using assms(1) by auto
  have "\<exists>e. append_repos items [] = Inl e"
  proof (cases "append_repos items []")
    case (Inl e)
    then show ?thesis by simp
  next
    case (Inr rs)
    from append_repos_all [OF Inr assms(1)] bad show ?thesis by auto
  qed
  then show ?thesis using ne by auto
qed

lemma loop_more_page:
  assumes "more_page (fetch (mk_request u t p)) rs"
  shows "get_user_repos_loop (Suc f) fetch u t p acc reqs =
         get_user_repos_loop f fetch u t (Suc p) (acc @ rs) (reqs @ [mk_request u t p])"
proof -
  from assms obtain items link where
    r: "fetch (mk_request u t p) = Response (Json (JArr items)) link"
    and ne: "items \<noteq> []" and ap: "append_repos items [] = Inr rs" and nx: "has_next link"
    by (auto simp: more_page_def split: http_result.splits body.splits json.splits)
  have ap': "append_repos items acc = Inr (acc @ rs)"
    using append_repos_acc [of items acc] ap by simp
  show ?thesis
    using r ne ap' nx by (simp add: Let_def)
qed

lemma loop_advance:
  assumes "\<forall>q. p \<le> q \<and> q < p + d \<longrightarrow> more_page (fetch (mk_request u t q)) (rs q)"
  shows "get_user_repos_loop (d + f) fetch u t p acc reqs =
         get_user_repos_loop f fetch u t (p + d) (acc @ concat (map rs [p..<p + d]))
           (reqs @ map (mk_request u t) [p..<p + d])"
  using assms
proof (induction d arbitrary: p acc reqs)
  case 0
  show ?case by simp
next
  case (Suc d)
  have first: "more_page (fetch (mk_request u t p)) (rs p)"
    using Suc.prems by simp
  have rest: "\<forall>q. Suc p \<le> q \<and> q < Suc p + d \<longrightarrow> more_page (fetch (mk_request u t q)) (rs q)"
    using Suc.prems by simp
  have "get_user_repos_loop (Suc d + f) fetch u t p acc reqs =
        get_user_repos_loop (d + f) fetch u t (Suc p) (acc @ rs p) (reqs @ [mk_request u t p])"
    using first loop_more_page [of fetch u t p "rs p" "d + f" acc reqs] by simp
  also have "\<dots> = get_user_repos_loop f fetch u t (Suc p + d)
        ((acc @ rs p) @ concat (map rs [Suc p..<Suc p + d]))
        ((reqs @ [mk_request u t p]) @ map (mk_request u t) [Suc p..<Suc p + d])"
    by (rule Suc.IH [OF rest])
  also have "\<dots> = get_user_repos_loop f fetch u t (p + Suc d)
        (acc @ concat (map rs [p..<p + Suc d]))
        (reqs @ map (mk_request u t) [p..<p + Suc d])"
    by (simp add: upt_conv_Cons del: upt_Suc)
  finally show ?case .
qed

lemma loop_last_page:
  assumes "last_page (fetch (mk_request u t p)) rs"
  shows "get_user_repos_loop (Suc f) fetch u t p acc reqs =
         (reqs @ [mk_request u t p], Some (Inr (acc @ rs)))"
proof -
  from assms obtain items link where
    r: "fetch (mk_request u t p) = Response (Json (JArr items)) link"
    and ap: "append_repos items [] = Inr rs" and stop: "items = [] \<or> \<not> has_next link"
    by (auto simp: last_page_def split: http_result.splits body.splits json.splits)
  have ap': "append_repos items acc = Inr (acc @ rs)"
    using append_repos_acc [of items acc] ap by simp
  show ?thesis
  proof (cases "items = []")
    case True
    then have "rs = []" using ap by simp
    then show ?thesis using r True by (simp add: Let_def)
  next
    case False
    then show ?thesis using r ap' stop by (simp add: Let_def)
  qed
qed

lemma loop_page_error:
  assumes "page_error (fetch (mk_request u t p))"
  shows "\<exists>e. get_user_repos_loop (Suc f) fetch u t p acc reqs =
         (reqs @ [mk_request u t p], Some (Inl e))"
proof (cases "fetch (mk_request u t p)")
  case (Raises e)
  then show ?thesis by (simp add: Let_def)
next
  case (Response b link)
  show ?thesis
  proof (cases b)
    case (Unreadable e)
    then show ?thesis using Response by (simp add: Let_def)
  next
    case (Json data)
    have nf: "\<not> falsy data" using assms Response Json by simp
    show ?thesis
    proof (cases "items_of data")
      case (Inl e)
      then show ?thesis using Response Json nf by (simp add: Let_def)
    next
      case (Inr items)
      have "\<exists>e. append_repos items [] = Inl e"
        using assms Response Json Inr by (simp split: sum.splits)
      then obtain e where "append_repos items [] = Inl e" ..
      then have "append_repos items acc = Inl e"
        using append_repos_acc [of items acc] by simp
      then show ?thesis using Response Json nf Inr by (simp add: Let_def)
    qed
  qed
qed

lemma listing_at_page:
  assumes "list_all (\<lambda>p. more_page (fetch (mk_request u t p)) (rs p)) [1..<k]"
    and "1 \<le> k" and "k \<le> fuel"
  shows "get_user_repos fuel fetch u t =
         get_user_repos_loop (Suc (fuel - k)) fetch u t k (concat (map rs [1..<k]))
           (map (mk_request u t) [1..<k])"
proof -
  obtain d where k: "k = Suc d"
    using assms(2) by (cases k) auto
  have fuel: "fuel = d + Suc (fuel - k)"
    using assms(3) k by simp
  have pre: "\<forall>q. 1 \<le> q \<and> q < 1 + d \<longrightarrow> more_page (fetch (mk_request u t q)) (rs q)"
    using assms(1) k by (simp add: list_all_iff del: upt_Suc)
  have "get_user_repos (d + Suc (fuel - k)) fetch u t =
        get_user_repos_loop (Suc (fuel - k)) fetch u t (1 + d) ([] @ concat (map rs [1..<1 + d]))
          ([] @ map (mk_request u t) [1..<1 + d])"
    unfolding get_user_repos_def by (rule loop_advance [OF pre])
  then show ?thesis
    using fuel k by simp
qed

lemma loop_two_tokens:
  assumes "\<forall>p. fetch (mk_request u t1 p) = fetch (mk_request u t2 p)"
  shows "snd (get_user_repos_loop fuel fetch u t1 p acc r1) =
         snd (get_user_repos_loop fuel fetch u t2 p acc r2)"
proof (induction fuel arbitrary: p acc r1 r2)
  case 0
  show ?case by simp
next
  case (Suc fuel)
  have same: "fetch (mk_request u t1 p) = fetch (mk_request u t2 p)"
    using assms by simp
  show ?case
  proof (cases "fetch (mk_request u t2 p)")
    case (Raises e)
    then show ?thesis using same by (simp add: Let_def)
  next
    case (Response b link)
    show ?thesis
    proof (cases b)
      case (Unreadable e)
      then show ?thesis using same Response by (simp add: Let_def)
    next
      case (Json data)
      show ?thesis
      proof (cases "falsy data")
        case True
        then show ?thesis using same Response Json by (simp add: Let_def)
      next
        case False
        show ?thesis
        proof (cases "items_of data")
          case (Inl e)
          then show ?thesis using same Response Json False by (simp add: Let_def)
        next
          case (Inr items)
          show ?thesis
          proof (cases "append_repos items acc")
            case (Inl e)
            then show ?thesis using same Response Json False Inr by (simp add: Let_def)
          next
            case app: (Inr repos')
            show ?thesis
            proof (cases "has_next link")
              case True
              have "snd (get_user_repos_loop fuel fetch u t1 (p + 1) repos' (r1 @ [mk_request u t1 p])) =
                    snd (get_user_repos_loop fuel fetch u t2 (p + 1) repos' (r2 @ [mk_request u t2 p]))"
                by (rule Suc.IH)
              then show ?thesis
                using same Response Json False Inr app True by (simp add: Let_def)
            next
              case no: False
              then show ?thesis
                using same Response Json False Inr app by (simp add: Let_def)
            qed
          qed
        qed
      qed
    qed
  qed
qed

lemma loop_requests:
  "list_all (\<lambda>r. r \<in> set reqs \<or> r \<in> range (mk_request u t))
     (fst (get_user_repos_loop fuel fetch u t p acc reqs))"
proof (induction fuel arbitrary: p acc reqs)
  case 0
  show ?case by (simp add: list_all_iff)
next
  case (Suc fuel)
  have step: "list_all (\<lambda>r. r \<in> set reqs \<or> r \<in> range (mk_request u t)) (reqs @ [mk_request u t p])"
    by (simp add: list_all_iff)
  have rec: "\<And>acc'. list_all (\<lambda>r. r \<in> set reqs \<or> r \<in> range (mk_request u t))
      (fst (get_user_repos_loop fuel fetch u t (p + 1) acc' (reqs @ [mk_request u t p])))"
  proof -
    fix acc'
    have "list_all (\<lambda>r. r \<in> set (reqs @ [mk_request u t p]) \<or> r \<in> range (mk_request u t))
      (fst (get_user_repos_loop fuel fetch u t (p + 1) acc' (reqs @ [mk_request u t p])))"
      by (rule Suc.IH)
    then show "list_all (\<lambda>r. r \<in> set reqs \<or> r \<in> range (mk_request u t))
      (fst (get_user_repos_loop fuel fetch u t (p + 1) acc' (reqs @ [mk_request u t p])))"
      by (auto simp: list_all_iff)
  qed
  show ?case
    using step rec
    by (simp add: Let_def split: http_result.splits body.splits sum.splits)
qed

subsection \<open>Reading a list of events\<close>

lemma statuses_append: "statuses (a @ b) = statuses a @ statuses b"
  by (induction a rule: statuses.induct) simp_all

lemma outputs_append: "outputs (a @ b) = outputs a @ outputs b"
  by (induction a rule: outputs.induct) simp_all

lemma git_runs_append: "git_runs (a @ b) = git_runs a @ git_runs b"
  by (induction a rule: git_runs.induct) simp_all

lemma requests_append: "requests (a @ b) = requests a @ requests b"
  by (induction a rule: requests.induct) simp_all

lemma read_status_event:
  "statuses (status_event cb n s) = (if cb then [(n, s)] else [])"
  "outputs (status_event cb n s) = []"
  "git_runs (status_event cb n s) = []"
  "requests (status_event cb n s) = []"
  by (simp_all add: status_event_def)

lemma read_output_event:
  "statuses (output_event cb l) = []"
  "outputs (output_event cb l) = (if cb then [l] else [])"
  "git_runs (output_event cb l) = []"
  "requests (output_event cb l) = []"
  by (simp_all add: output_event_def)

lemma read_requests:
  "statuses (map Request rs) = []"
  "outputs (map Request rs) = []"
  "git_runs (map Request rs) = []"
  "requests (map Request rs) = rs"
  by (induction rs) simp_all

lemma read_lines:
  "statuses (concat (map (\<lambda>l. output_event cb (LogLine (f l))) ls)) = []"
  "git_runs (concat (map (\<lambda>l. output_event cb (LogLine (f l))) ls)) = []"
  "requests (concat (map (\<lambda>l. output_event cb (LogLine (f l))) ls)) = []"
  "outputs (concat (map (\<lambda>l. output_event cb (LogLine (f l))) ls)) =
     (if cb then map (\<lambda>l. LogLine (f l)) ls else [])"
  by (induction ls) (simp_all add: statuses_append git_runs_append requests_append
      outputs_append read_output_event)

lemmas read_events = statuses_append outputs_append git_runs_append requests_append
  read_status_event read_output_event read_requests read_lines

subsection \<open>The command runner\<close>

lemma run_git_command_launch:
  assumes "argv_of cmd = Some argv" and "popen env argv cwd w = (LaunchError e, w')"
  shows "run_git_command env cmd cwd ocb w = ((False, ErrorDescription e), [RunGit cmd cwd], w')"
  using assms by (simp add: run_git_command_def)

lemma run_git_command_read:
  assumes "argv_of cmd = Some argv" and "popen env argv cwd w = (ReadError ls e, w')"
  shows "run_git_command env cmd cwd ocb w =
           ((False, ErrorDescription e),
            RunGit cmd cwd # concat (map (\<lambda>l. output_event ocb (LogLine (rstrip l))) ls), w')"
  using assms by (simp add: run_git_command_def)

lemma run_git_command_exit:
  assumes "argv_of cmd = Some argv" and "popen env argv cwd w = (Exited ls rc, w')"
  shows "run_git_command env cmd cwd ocb w =
           ((rc = 0, Combined (join_lines (map rstrip ls))),
            RunGit cmd cwd # concat (map (\<lambda>l. output_event ocb (LogLine (rstrip l))) ls), w')"
  using assms by (simp add: run_git_command_def)

lemma run_git_command_events:
  assumes "run_git_command env cmd cwd ocb w = (r, ev, w')"
  shows "statuses ev = [] \<and> requests ev = [] \<and> git_runs ev = [(cmd, cwd)]"
  using assms
  by (auto simp: run_git_command_def read_events
      split: option.splits prod.splits popen_result.splits if_splits)

subsection \<open>The orchestrator\<close>

lemma clone_or_pull_clone:
  assumes "name repo = JStr n" and "lp = normpath env (path_join env base n)"
    and "\<not> path_exists env w lp"
    and "run_git_command env [JStr ''git'', JStr ''clone'', clone_url repo, JStr lp] None ocb w =
           ((ok, out), ev, w')"
  shows "clone_or_pull env repo base scb ocb w =
           (Inr ok,
            status_event scb n Processing @ output_event ocb (LogClone (clone_url repo) lp) @ ev
              @ status_event scb n (if ok then Success else Failed),
            w')"
  using assms by (simp add: clone_or_pull_def Let_def)

lemma clone_or_pull_skip:
  assumes "name repo = JStr n" and "lp = normpath env (path_join env base n)"
    and "path_exists env w lp" and "\<not> path_isdir env w (path_join env lp ''.git'')"
  shows "clone_or_pull env repo base scb ocb w =
           (Inr False,
            status_event scb n Processing @ output_event ocb (LogSkip lp) @ status_event scb n Skipped,
            w)"
  using assms by (simp add: clone_or_pull_def Let_def)

lemma clone_or_pull_pull:
  assumes "name repo = JStr n" and "lp = normpath env (path_join env base n)"
    and "path_exists env w lp" and "path_isdir env w (path_join env lp ''.git'')"
    and "run_git_command env [JStr ''git'', JStr ''pull''] (Some lp) ocb w = ((ok, out), ev, w')"
  shows "clone_or_pull env repo base scb ocb w =
           (Inr ok,
            status_event scb n Processing @ output_event ocb (LogPull lp) @ ev
              @ status_event scb n (if ok then Success else Failed),
            w')"
  using assms by (simp add: clone_or_pull_def Let_def)

lemma clone_or_pull_statuses:
  assumes "name repo = JStr n"
    and "clone_or_pull env repo base scb ocb w = (r, ev, w')"
  shows "\<exists>b t. r = Inr b \<and> t \<noteq> Processing \<and> (b \<longleftrightarrow> t = Success)
           \<and> statuses ev = (if scb then [(n, Processing), (n, t)] else [])"
proof -
  let ?lp = "normpath env (path_join env base n)"
  consider (clone) "\<not> path_exists env w ?lp"
    | (skip) "path_exists env w ?lp" "\<not> path_isdir env w (path_join env ?lp ''.git'')"
    | (pull) "path_exists env w ?lp" "path_isdir env w (path_join env ?lp ''.git'')"
    by blast
  then show ?thesis
  proof cases
    case clone
    obtain ok out ev1 w1 where g: "run_git_command env
        [JStr ''git'', JStr ''clone'', clone_url repo, JStr ?lp] None ocb w = ((ok, out), ev1, w1)"
      by (metis prod.exhaust)
    have r: "r = Inr ok" and ev: "ev = status_event scb n Processing
        @ output_event ocb (LogClone (clone_url repo) ?lp) @ ev1
        @ status_event scb n (if ok then Success else Failed)"
      using assms clone g by (simp_all add: clone_or_pull_def Let_def)
    have "statuses ev1 = []"
      using run_git_command_events [OF g] by simp
    then have "statuses ev = (if scb then [(n, Processing), (n, if ok then Success else Failed)] else [])"
      unfolding ev by (simp add: read_events)
    then show ?thesis using r by (intro exI [of _ ok] exI [of _ "if ok then Success else Failed"]) simp
  next
    case skip
    have "r = Inr False" and "ev = status_event scb n Processing
        @ output_event ocb (LogSkip ?lp) @ status_event scb n Skipped"
      using assms skip by (simp_all add: clone_or_pull_def Let_def)
    then show ?thesis
      by (intro exI [of _ False] exI [of _ Skipped]) (simp add: read_events)
  next
    case pull
    obtain ok out ev1 w1 where g: "run_git_command env
        [JStr ''git'', JStr ''pull''] (Some ?lp) ocb w = ((ok, out), ev1, w1)"
      by (metis prod.exhaust)
    have r: "r = Inr ok" and ev: "ev = status_event scb n Processing
        @ output_event ocb (LogPull ?lp) @ ev1
        @ status_event scb n (if ok then Success else Failed)"
      using assms pull g by (simp_all add: clone_or_pull_def Let_def)
    have "statuses ev1 = []"
      using run_git_command_events [OF g] by simp
    then have "statuses ev = (if scb then [(n, Processing), (n, if ok then Success else Failed)] else [])"
      unfolding ev by (simp add: read_events)
    then show ?thesis using r by (intro exI [of _ ok] exI [of _ "if ok then Success else Failed"]) simp
  qed
qed

lemma clone_or_pull_shape:
  assumes "name repo = JStr n"
  shows "\<exists>b t mid w'. clone_or_pull env repo base True ocb w =
             (Inr b, Status n Processing # mid @ [Status n t], w')
           \<and> statuses mid = [] \<and> t \<noteq> Processing \<and> (b \<longleftrightarrow> t = Success)"
proof -
  define lp where "lp = normpath env (path_join env base n)"
  consider (clone) "\<not> path_exists env w lp"
    | (skip) "path_exists env w lp" "\<not> path_isdir env w (path_join env lp ''.git'')"
    | (pull) "path_exists env w lp" "path_isdir env w (path_join env lp ''.git'')"
    by blast
  then show ?thesis
  proof cases
    case clone
    obtain ok out ev w' where g: "run_git_command env
        [JStr ''git'', JStr ''clone'', clone_url repo, JStr lp] None ocb w = ((ok, out), ev, w')"
      by (metis prod.exhaust)
    have q: "statuses ev = []"
      using run_git_command_events [OF g] by simp
    have "clone_or_pull env repo base True ocb w =
        (Inr ok, Status n Processing # (output_event ocb (LogClone (clone_url repo) lp) @ ev)
           @ [Status n (if ok then Success else Failed)], w')"
      unfolding clone_or_pull_clone [OF assms lp_def clone g] by (simp add: status_event_def)
    moreover have "statuses (output_event ocb (LogClone (clone_url repo) lp) @ ev) = []"
      using q by (simp add: read_events)
    ultimately show ?thesis by (intro exI conjI) (assumption, assumption, simp_all)
  next
    case skip
    have "clone_or_pull env repo base True ocb w =
        (Inr False, Status n Processing # output_event ocb (LogSkip lp) @ [Status n Skipped], w)"
      unfolding clone_or_pull_skip [OF assms lp_def skip] by (simp add: status_event_def)
    moreover have "statuses (output_event ocb (LogSkip lp)) = []"
      by (simp add: read_events)
    ultimately show ?thesis by (intro exI conjI) (assumption, assumption, simp_all)
  next
    case pull
    obtain ok out ev w' where g: "run_git_command env
        [JStr ''git'', JStr ''pull''] (Some lp) ocb w = ((ok, out), ev, w')"
      by (metis prod.exhaust)
    have q: "statuses ev = []"
      using run_git_command_events [OF g] by simp
    have "clone_or_pull env repo base True ocb w =
        (Inr ok, Status n Processing # (output_event ocb (LogPull lp) @ ev)
           @ [Status n (if ok then Success else Failed)], w')"
      unfolding clone_or_pull_pull [OF assms lp_def pull g] by (simp add: status_event_def)
    moreover have "statuses (output_event ocb (LogPull lp) @ ev) = []"
      using q by (simp add: read_events)
    ultimately show ?thesis by (intro exI conjI) (assumption, assumption, simp_all)
  qed
qed

lemma requests_clone_or_pull:
  "requests (fst (snd (clone_or_pull env repo base scb ocb w))) = []"
proof (cases "name repo")
  case (JStr n)
  define lp where "lp = normpath env (path_join env base n)"
  consider (clone) "\<not> path_exists env w lp"
    | (skip) "path_exists env w lp" "\<not> path_isdir env w (path_join env lp ''.git'')"
    | (pull) "path_exists env w lp" "path_isdir env w (path_join env lp ''.git'')"
    by blast
  then show ?thesis
  proof cases
    case clone
    obtain ok out ev w' where g: "run_git_command env
        [JStr ''git'', JStr ''clone'', clone_url repo, JStr lp] None ocb w = ((ok, out), ev, w')"
      by (metis prod.exhaust)
    show ?thesis
      unfolding clone_or_pull_clone [OF JStr lp_def clone g]
      using run_git_command_events [OF g] by (simp add: read_events)
  next
    case skip
    show ?thesis
      unfolding clone_or_pull_skip [OF JStr lp_def skip] by (simp add: read_events)
  next
    case pull
    obtain ok out ev w' where g: "run_git_command env
        [JStr ''git'', JStr ''pull''] (Some lp) ocb w = ((ok, out), ev, w')"
      by (metis prod.exhaust)
    show ?thesis
      unfolding clone_or_pull_pull [OF JStr lp_def pull g]
      using run_git_command_events [OF g] by (simp add: read_events)
  qed
qed (simp_all add: clone_or_pull_def)

lemma clone_or_pull_any_callback:
  "fst (clone_or_pull env repo base scb ocb w) = fst (clone_or_pull env repo base True ocb w)
   \<and> snd (snd (clone_or_pull env repo base scb ocb w)) = snd (snd (clone_or_pull env repo base True ocb w))
   \<and> outputs (fst (snd (clone_or_pull env repo base scb ocb w))) =
       outputs (fst (snd (clone_or_pull env repo base True ocb w)))
   \<and> git_runs (fst (snd (clone_or_pull env repo base scb ocb w))) =
       git_runs (fst (snd (clone_or_pull env repo base True ocb w)))
   \<and> statuses (fst (snd (clone_or_pull env repo base scb ocb w))) =
       (if scb then statuses (fst (snd (clone_or_pull env repo base True ocb w))) else [])"
proof (cases "name repo")
  case (JStr n)
  define lp where "lp = normpath env (path_join env base n)"
  consider (clone) "\<not> path_exists env w lp"
    | (skip) "path_exists env w lp" "\<not> path_isdir env w (path_join env lp ''.git'')"
    | (pull) "path_exists env w lp" "path_isdir env w (path_join env lp ''.git'')"
    by blast
  then show ?thesis
  proof cases
    case clone
    obtain ok out ev w' where g: "run_git_command env
        [JStr ''git'', JStr ''clone'', clone_url repo, JStr lp] None ocb w = ((ok, out), ev, w')"
      by (metis prod.exhaust)
    have q: "statuses ev = []"
      using run_git_command_events [OF g] by simp
    show ?thesis
      unfolding clone_or_pull_clone [OF JStr lp_def clone g] using q by (simp add: read_events)
  next
    case skip
    show ?thesis
      unfolding clone_or_pull_skip [OF JStr lp_def skip] by (simp add: read_events)
  next
    case pull
    obtain ok out ev w' where g: "run_git_command env
        [JStr ''git'', JStr ''pull''] (Some lp) ocb w = ((ok, out), ev, w')"
      by (metis prod.exhaust)
    have q: "statuses ev = []"
      using run_git_command_events [OF g] by simp
    show ?thesis
      unfolding clone_or_pull_pull [OF JStr lp_def pull g] using q by (simp add: read_events)
  qed
qed (simp_all add: clone_or_pull_def)

lemma not_success: "t \<noteq> Processing \<Longrightarrow> t \<noteq> Success \<longleftrightarrow> t = Failed \<or> t = Skipped"
  by (cases t) simp_all

subsection \<open>The session driver\<close>

lemma process_loop_statuses:
  assumes "map name repos = map JStr ns"
    and "process_loop env repos base True ocb sc fc w = (res, ev, w')"
  shows "\<exists>ts. length ts = length repos \<and> Processing \<notin> set ts
           \<and> res = Inr (sc + length (filter (\<lambda>t. t = Success) ts),
                         fc + length (filter (\<lambda>t. t \<noteq> Success) ts))
           \<and> statuses ev = status_pairs ns ts"
  using assms
proof (induction repos arbitrary: ns sc fc w res ev w')
  case Nil
  then show ?case by (intro exI [of _ "[]"]) simp
next
  case (Cons repo repos)
  from Cons.prems(1) obtain n ns' where ns: "ns = n # ns'" and n: "name repo = JStr n"
    and rest: "map name repos = map JStr ns'"
    by (cases ns) auto
  obtain r1 ev1 w1 where c: "clone_or_pull env repo base True ocb w = (r1, ev1, w1)"
    by (metis prod.exhaust)
  from clone_or_pull_statuses [OF n c] obtain b t where r1: "r1 = Inr b"
    and t: "t \<noteq> Processing" and bt: "b \<longleftrightarrow> t = Success"
    and st1: "statuses ev1 = [(n, Processing), (n, t)]"
    by auto
  let ?sc = "if b then sc + 1 else sc" and ?fc = "if b then fc else fc + 1"
  obtain r2 ev2 w2 where l: "process_loop env repos base True ocb ?sc ?fc w1 = (r2, ev2, w2)"
    by (metis prod.exhaust)
  have res: "res = r2" and ev: "ev = ev1 @ ev2"
    using Cons.prems(2) c r1 l by (auto split: if_splits)
  from Cons.IH [OF rest l] obtain ts where len: "length ts = length repos"
    and np: "Processing \<notin> set ts"
    and r2: "r2 = Inr (?sc + length (filter (\<lambda>t. t = Success) ts),
                      ?fc + length (filter (\<lambda>t. t \<noteq> Success) ts))"
    and st2: "statuses ev2 = status_pairs ns' ts"
    by auto
  show ?case
  proof (intro exI [of _ "t # ts"] conjI)
    show "length (t # ts) = length (repo # repos)" using len by simp
    show "Processing \<notin> set (t # ts)" using np t by simp
    show "res = Inr (sc + length (filter (\<lambda>t. t = Success) (t # ts)),
                     fc + length (filter (\<lambda>t. t \<noteq> Success) (t # ts)))"
      using res r2 bt by simp
    show "statuses ev = status_pairs ns (t # ts)"
      using ev st1 st2 ns by (simp add: statuses_append)
  qed
qed

lemma process_loop_any_callback:
  "fst (process_loop env repos base scb ocb sc fc w) = fst (process_loop env repos base True ocb sc fc w)
   \<and> snd (snd (process_loop env repos base scb ocb sc fc w)) =
       snd (snd (process_loop env repos base True ocb sc fc w))
   \<and> outputs (fst (snd (process_loop env repos base scb ocb sc fc w))) =
       outputs (fst (snd (process_loop env repos base True ocb sc fc w)))
   \<and> git_runs (fst (snd (process_loop env repos base scb ocb sc fc w))) =
       git_runs (fst (snd (process_loop env repos base True ocb sc fc w)))
   \<and> statuses (fst (snd (process_loop env repos base scb ocb sc fc w))) =
       (if scb then statuses (fst (snd (process_loop env repos base True ocb sc fc w))) else [])"
proof (induction repos arbitrary: sc fc w)
  case Nil
  show ?case by simp
next
  case (Cons repo repos)
  obtain r ev w1 where c: "clone_or_pull env repo base scb ocb w = (r, ev, w1)"
    by (metis prod.exhaust)
  obtain r' ev' w1' where c': "clone_or_pull env repo base True ocb w = (r', ev', w1')"
    by (metis prod.exhaust)
  have same: "r = r'" "w1 = w1'" "outputs ev = outputs ev'" "git_runs ev = git_runs ev'"
    "statuses ev = (if scb then statuses ev' else [])"
    using clone_or_pull_any_callback [of env repo base scb ocb w] c c' by simp_all
  show ?case
  proof (cases r)
    case (Inl e)
    then show ?thesis using c c' same by simp
  next
    case (Inr ok)
    let ?sc = "if ok then sc + 1 else sc" and ?fc = "if ok then fc else fc + 1"
    obtain r2 ev2 w2 where l: "process_loop env repos base scb ocb ?sc ?fc w1 = (r2, ev2, w2)"
      by (metis prod.exhaust)
    obtain r2' ev2' w2' where l': "process_loop env repos base True ocb ?sc ?fc w1 = (r2', ev2', w2')"
      by (metis prod.exhaust)
    have rest: "r2 = r2'" "w2 = w2'" "outputs ev2 = outputs ev2'" "git_runs ev2 = git_runs ev2'"
      "statuses ev2 = (if scb then statuses ev2' else [])"
      using Cons.IH [of ?sc ?fc w1] l l' by simp_all
    have run: "process_loop env (repo # repos) base scb ocb sc fc w = (r2, ev @ ev2, w2)"
      using c Inr l by (simp split: if_splits)
    have run': "process_loop env (repo # repos) base True ocb sc fc w = (r2', ev' @ ev2', w2')"
      using c' Inr same l' by (simp split: if_splits)
    show ?thesis
      unfolding run run' using same rest by (simp add: read_events)
  qed
qed

lemma snd_status_pairs:
  "length ns = length ts \<Longrightarrow> map snd (status_pairs ns ts) = concat (map (\<lambda>t. [Processing, t]) ts)"
  by (induction ns ts rule: list_induct2) simp_all

lemma count_status_pairs:
  "length (filter P (concat (map (\<lambda>t. [Processing, t]) ts))) =
     (if P Processing then length ts else 0) + length (filter P ts)"
  by (induction ts) simp_all

lemma tally_status_pairs:
  assumes "statuses ev = status_pairs ns ts" and "length ns = length ts"
  shows "tally P ev = (if P Processing then length ts else 0) + length (filter P ts)"
proof -
  have "tally P ev = length (filter P (concat (map (\<lambda>t. [Processing, t]) ts)))"
    unfolding tally_def assms(1) snd_status_pairs [OF assms(2)] ..
  then show ?thesis
    by (simp only: count_status_pairs)
qed

lemma filter_not_success:
  assumes "Processing \<notin> set ts"
  shows "filter (\<lambda>t. t = Failed \<or> t = Skipped) ts = filter (\<lambda>t. t \<noteq> Success) ts"
proof (rule filter_cong [OF refl])
  fix t assume "t \<in> set ts"
  then have "t \<noteq> Processing" using assms by auto
  then show "(t = Failed \<or> t = Skipped) = (t \<noteq> Success)"
    using not_success [of t] by simp
qed

lemma status_map_pairs:
  assumes "length ns = length ts" and "Processing \<notin> set ts" and "\<forall>k. m k \<noteq> Some Processing"
  shows "\<forall>k. status_map (status_pairs ns ts) m k \<noteq> Some Processing"
  using assms
proof (induction ns ts arbitrary: m rule: list_induct2)
  case Nil
  then show ?case by simp
next
  case (Cons n ns t ts)
  have t: "t \<noteq> Processing" using Cons.prems(1) by auto
  have "\<forall>k. ((m(n \<mapsto> Processing))(n \<mapsto> t)) k \<noteq> Some Processing"
    using Cons.prems(2) t by simp
  moreover have "Processing \<notin> set ts" using Cons.prems by simp
  ultimately have "\<forall>k. status_map (status_pairs ns ts) ((m(n \<mapsto> Processing))(n \<mapsto> t)) k \<noteq> Some Processing"
    by (rule Cons.IH [rotated])
  then show ?case by simp
qed

lemma process_repos_listed:
  assumes "get_user_repos fuel (urlopen env) u tok = (reqs, Some (Inr repos))" and "repos \<noteq> []"
    and "process_loop env repos base scb ocb 0 0 w = (Inr (s, f), ev, w')"
  shows "process_repos env fuel u base tok scb ocb w =
           (Some (Inr (f = 0)),
            output_event ocb (LogFetching u) @ map Request reqs
              @ output_event ocb (LogFound (length repos)) @ ev
              @ output_event ocb (LogSummary s f), w')"
  using assms by (simp add: process_repos_def)

lemma process_repos_failed:
  assumes "get_user_repos fuel (urlopen env) u tok = (reqs, Some (Inl e))"
  shows "process_repos env fuel u base tok scb ocb w =
           (Some (Inr False),
            output_event ocb (LogFetching u) @ map Request reqs @ output_event ocb (LogError e), w)"
  using assms by (simp add: process_repos_def)

lemma session_events:
  assumes "get_user_repos fuel (urlopen env) u tok = (reqs, Some (Inr repos))"
    and "repos \<noteq> []"
    and "map name repos = map JStr ns"
  shows "\<exists>ts ev w'. length ts = length repos \<and> Processing \<notin> set ts
           \<and> statuses ev = status_pairs ns ts
           \<and> process_repos env fuel u base tok True ocb w =
               (Some (Inr (length (filter (\<lambda>t. t \<noteq> Success) ts) = 0)),
                output_event ocb (LogFetching u) @ map Request reqs
                  @ output_event ocb (LogFound (length repos)) @ ev
                  @ output_event ocb (LogSummary (length (filter (\<lambda>t. t = Success) ts))
                       (length (filter (\<lambda>t. t \<noteq> Success) ts))),
                w')"
proof -
  obtain res ev w' where l: "process_loop env repos base True ocb 0 0 w = (res, ev, w')"
    by (metis prod.exhaust)
  from process_loop_statuses [OF assms(3) l] obtain ts where len: "length ts = length repos"
    and np: "Processing \<notin> set ts"
    and res: "res = Inr (0 + length (filter (\<lambda>t. t = Success) ts),
                         0 + length (filter (\<lambda>t. t \<noteq> Success) ts))"
    and st: "statuses ev = status_pairs ns ts"
    by blast
  have l': "process_loop env repos base True ocb 0 0 w =
      (Inr (length (filter (\<lambda>t. t = Success) ts), length (filter (\<lambda>t. t \<noteq> Success) ts)), ev, w')"
    using l res by simp
  note run = process_repos_listed [OF assms(1, 2) l']
  show ?thesis
    using len np st run by blast
qed

lemma requests_process_loop:
  "requests (fst (snd (process_loop env repos base scb ocb sc fc w))) = []"
proof (induction repos arbitrary: sc fc w)
  case Nil
  show ?case by simp
next
  case (Cons repo repos)
  obtain r ev w' where c: "clone_or_pull env repo base scb ocb w = (r, ev, w')"
    by (metis prod.exhaust)
  have ev: "requests ev = []"
    using requests_clone_or_pull [of env repo base scb ocb w] c by simp
  show ?case
  proof (cases r)
    case (Inl e)
    then show ?thesis using c ev by simp
  next
    case (Inr ok)
    let ?sc = "if ok then sc + 1 else sc" and ?fc = "if ok then fc else fc + 1"
    obtain r2 ev2 w2 where l: "process_loop env repos base scb ocb ?sc ?fc w' = (r2, ev2, w2)"
      by (metis prod.exhaust)
    have "requests ev2 = []"
      using Cons.IH [of ?sc ?fc w'] l by simp
    then show ?thesis
      using c Inr l ev by (auto simp: read_events split: if_splits)
  qed
qed

lemma requests_process_repos:
  "requests (fst (snd (process_repos env fuel u base tok scb ocb w))) =
     fst (get_user_repos fuel (urlopen env) u tok)"
proof -
  obtain reqs r where g: "get_user_repos fuel (urlopen env) u tok = (reqs, r)"
    by (cases "get_user_repos fuel (urlopen env) u tok") auto
  show ?thesis
  proof (cases r)
    case None
    then show ?thesis using g by (simp add: process_repos_def read_events)
  next
    case (Some x)
    show ?thesis
    proof (cases x)
      case (Inl e)
      then show ?thesis using g Some by (simp add: process_repos_def read_events)
    next
      case (Inr repos)
      obtain r' ev w' where l: "process_loop env repos base scb ocb 0 0 w = (r', ev, w')"
        by (metis prod.exhaust)
      have "requests ev = []"
        using requests_process_loop [of env repos base scb ocb 0 0 w] l by simp
      then show ?thesis
        using g Some Inr l
        by (cases r') (auto simp: process_repos_def Let_def read_events split: prod.splits)
    qed
  qed
qed

lemma process_repos_two_listings:
  assumes "get_user_repos fuel (urlopen env) u t1 = (reqs1, r)"
    and "get_user_repos fuel (urlopen env) u t2 = (reqs2, r)"
  shows "fst (process_repos env fuel u base t1 scb ocb w) = fst (process_repos env fuel u base t2 scb ocb w)
       \<and> outputs (fst (snd (process_repos env fuel u base t1 scb ocb w))) =
           outputs (fst (snd (process_repos env fuel u base t2 scb ocb w)))
       \<and> statuses (fst (snd (process_repos env fuel u base t1 scb ocb w))) =
           statuses (fst (snd (process_repos env fuel u base t2 scb ocb w)))
       \<and> git_runs (fst (snd (process_repos env fuel u base t1 scb ocb w))) =
           git_runs (fst (snd (process_repos env fuel u base t2 scb ocb w)))
       \<and> snd (snd (process_repos env fuel u base t1 scb ocb w)) =
           snd (snd (process_repos env fuel u base t2 scb ocb w))"
proof (cases r)
  case None
  then show ?thesis using assms by (simp add: process_repos_def read_events)
next
  case (Some x)
  show ?thesis
  proof (cases x)
    case (Inl e)
    then show ?thesis using assms Some by (simp add: process_repos_def read_events)
  next
    case (Inr repos)
    obtain r' ev w' where l: "process_loop env repos base scb ocb 0 0 w = (r', ev, w')"
      by (metis prod.exhaust)
    show ?thesis
      using assms Some Inr l
      by (cases r') (auto simp: process_repos_def Let_def read_events split: prod.splits)
  qed
qed

section \<open>The claims\<close>

subsection \<open>C1: the result of a session\<close>

text \<open>
  C1. For every run of \<^verbatim>\<open>process_repos\<close> over a non-empty listing of
  repositories whose names are strings, with or without a status callback and
  with or without an output callback: the function returns a boolean, which is
  true exactly when the failure tally is zero. The tally counts the repositories
  whose last status is failed or skipped; the statuses are those that the status
  callback is given when one is supplied, and the run does the same without one:
  same result, same log lines, same invocations of the command runner, same
  machine at the end. The number of repositories that ended in success and the
  tally add up to the number of repositories, and when an output callback is
  supplied the last event is the summary line, which reports these two numbers.
  In particular, for three repositories of which two succeed and one is skipped,
  the session returns false and the summary reports 2 and 1.
\<close>

theorem session_result:
  assumes "get_user_repos fuel (urlopen env) u tok = (reqs, Some (Inr repos))"
    and "repos \<noteq> []"
    and "map name repos = map JStr ns"
    and "process_repos env fuel u base tok scb ocb w = (res, ev, w')"
    and "process_repos env fuel u base tok True ocb w = (res1, ev1, w1)"
  shows "res = Some (Inr (tally (\<lambda>s. s = Failed \<or> s = Skipped) ev1 = 0))
         \<and> tally (\<lambda>s. s = Success) ev1 + tally (\<lambda>s. s = Failed \<or> s = Skipped) ev1 = length repos
         \<and> (ocb \<longrightarrow> last ev = Output (LogSummary (tally (\<lambda>s. s = Success) ev1)
                                                 (tally (\<lambda>s. s = Failed \<or> s = Skipped) ev1)))
         \<and> statuses ev = (if scb then statuses ev1 else [])
         \<and> outputs ev = outputs ev1 \<and> git_runs ev = git_runs ev1 \<and> requests ev = requests ev1
         \<and> w' = w1
         \<and> (length repos = 3 \<and> tally (\<lambda>s. s = Success) ev1 = 2 \<and> tally (\<lambda>s. s = Skipped) ev1 = 1 \<longrightarrow>
              res = Some (Inr False) \<and> (ocb \<longrightarrow> last ev = Output (LogSummary 2 1)))"
proof -
  obtain rl evl wl where l: "process_loop env repos base scb ocb 0 0 w = (rl, evl, wl)"
    by (metis prod.exhaust)
  obtain rl1 evl1 wl1 where l1: "process_loop env repos base True ocb 0 0 w = (rl1, evl1, wl1)"
    by (metis prod.exhaust)
  have same: "rl = rl1" "wl = wl1" "outputs evl = outputs evl1" "git_runs evl = git_runs evl1"
    "statuses evl = (if scb then statuses evl1 else [])"
    using process_loop_any_callback [of env repos base scb ocb 0 0 w] l l1 by simp_all
  from process_loop_statuses [OF assms(3) l1] obtain ts where len: "length ts = length repos"
    and np: "Processing \<notin> set ts"
    and rl1: "rl1 = Inr (0 + length (filter (\<lambda>t. t = Success) ts),
                         0 + length (filter (\<lambda>t. t \<noteq> Success) ts))"
    and st: "statuses evl1 = status_pairs ns ts"
    by blast
  let ?s = "length (filter (\<lambda>t. t = Success) ts)" and ?f = "length (filter (\<lambda>t. t \<noteq> Success) ts)"
  have l1': "process_loop env repos base True ocb 0 0 w = (Inr (?s, ?f), evl1, wl1)"
    using l1 rl1 by simp
  have l': "process_loop env repos base scb ocb 0 0 w = (Inr (?s, ?f), evl, wl)"
    using l same rl1 by simp
  note shape1 = process_repos_listed [OF assms(1, 2) l1']
  note shape = process_repos_listed [OF assms(1, 2) l']
  have ev1: "ev1 = output_event ocb (LogFetching u) @ map Request reqs
                  @ output_event ocb (LogFound (length repos)) @ evl1
                  @ output_event ocb (LogSummary ?s ?f)"
    and w1: "w1 = wl1"
    using assms(5) shape1 by simp_all
  have res: "res = Some (Inr (?f = 0))"
    and ev: "ev = output_event ocb (LogFetching u) @ map Request reqs
                  @ output_event ocb (LogFound (length repos)) @ evl
                  @ output_event ocb (LogSummary ?s ?f)"
    and w': "w' = wl"
    using assms(4) shape by simp_all
  have sts: "statuses ev1 = status_pairs ns ts"
    unfolding ev1 using st by (simp add: read_events)
  have lens: "length ns = length ts"
  proof -
    have "length (map name repos) = length (map JStr ns)"
      using assms(3) by simp
    then show ?thesis using len by simp
  qed
  have s: "tally (\<lambda>s. s = Success) ev1 = ?s"
    using tally_status_pairs [OF sts lens, of "\<lambda>s. s = Success"] by simp
  have f: "tally (\<lambda>s. s = Failed \<or> s = Skipped) ev1 = ?f"
    using tally_status_pairs [OF sts lens, of "\<lambda>s. s = Failed \<or> s = Skipped"]
    by (simp add: filter_not_success [OF np])
  have sum: "?s + ?f = length repos"
    using sum_length_filter_compl [of "\<lambda>t. t = Success" ts] len by simp
  have last: "ocb \<longrightarrow> last ev = Output (LogSummary ?s ?f)"
    unfolding ev by (simp add: output_event_def)
  have proj: "statuses ev = (if scb then statuses ev1 else [])"
    "outputs ev = outputs ev1" "git_runs ev = git_runs ev1" "requests ev = requests ev1"
    unfolding ev ev1 using same requests_process_loop [of env repos base scb ocb 0 0 w]
      requests_process_loop [of env repos base True ocb 0 0 w] l l1
    by (simp_all add: read_events)
  have world: "w' = w1"
    using w' w1 same by simp
  have scenario: "length repos = 3 \<and> tally (\<lambda>s. s = Success) ev1 = 2 \<and> tally (\<lambda>s. s = Skipped) ev1 = 1
      \<longrightarrow> res = Some (Inr False) \<and> (ocb \<longrightarrow> last ev = Output (LogSummary 2 1))"
  proof
    assume a: "length repos = 3 \<and> tally (\<lambda>s. s = Success) ev1 = 2 \<and> tally (\<lambda>s. s = Skipped) ev1 = 1"
    then have "?s = 2" using s by simp
    moreover from this have "?f = 1" using sum a by simp
    ultimately show "res = Some (Inr False) \<and> (ocb \<longrightarrow> last ev = Output (LogSummary 2 1))"
      using res last by simp
  qed
  show ?thesis
    unfolding s f using res last sum proj world scenario s by simp
qed

text \<open>
  The concrete machine, run as the command line runs it, without a status
  callback, and with one: alpha is cloned, beta is pulled, gamma is skipped; the
  session returns false and its summary reports 2 and 1.
\<close>

theorem session_result_witness:
  "get_user_repos 2 (urlopen demo_env) ''octo'' None =
     (map (mk_request ''octo'' None) [1..<Suc 2],
      Some (Inr (map octo_info [''alpha'', ''beta'', ''gamma''])))
   \<and> map name (map octo_info [''alpha'', ''beta'', ''gamma'']) = map JStr [''alpha'', ''beta'', ''gamma'']
   \<and> statuses (fst (snd (process_repos demo_env 2 ''octo'' ''/backup'' None True True backup_dirs))) =
       [(''alpha'', Processing), (''alpha'', Success), (''beta'', Processing), (''beta'', Success),
        (''gamma'', Processing), (''gamma'', Skipped)]
   \<and> statuses (fst (snd (process_repos demo_env 2 ''octo'' ''/backup'' None False True backup_dirs))) = []
   \<and> fst (process_repos demo_env 2 ''octo'' ''/backup'' None False True backup_dirs) = Some (Inr False)
   \<and> last (fst (snd (process_repos demo_env 2 ''octo'' ''/backup'' None False True backup_dirs))) =
       Output (LogSummary 2 1)
   \<and> snd (snd (process_repos demo_env 2 ''octo'' ''/backup'' None False True backup_dirs)) =
       [''/backup/alpha'', ''/backup/alpha/.git'', ''/backup/beta'', ''/backup/beta/.git'', ''/backup/gamma'']
   \<and> fst (process_repos demo_env 2 ''octo'' ''/backup'' None True True backup_dirs) = Some (Inr False)
   \<and> last (fst (snd (process_repos demo_env 2 ''octo'' ''/backup'' None True True backup_dirs))) =
       Output (LogSummary 2 1)"
proof -
  let ?R = "process_repos demo_env 2 ''octo'' ''/backup'' None False True backup_dirs"
  let ?R1 = "process_repos demo_env 2 ''octo'' ''/backup'' None True True backup_dirs"
  have h1: "get_user_repos 2 (urlopen demo_env) ''octo'' None =
     (map (mk_request ''octo'' None) [1..<Suc 2],
      Some (Inr (map octo_info [''alpha'', ''beta'', ''gamma''])))"
    by code_simp
  have h2: "map octo_info [''alpha'', ''beta'', ''gamma''] \<noteq> []" by simp
  have h3: "map name (map octo_info [''alpha'', ''beta'', ''gamma'']) = map JStr [''alpha'', ''beta'', ''gamma'']"
    by (simp add: octo_info_def)
  have h4: "?R = (fst ?R, fst (snd ?R), snd (snd ?R))" by simp
  have h5: "?R1 = (fst ?R1, fst (snd ?R1), snd (snd ?R1))" by simp
  note r = session_result [OF h1 h2 h3 h4 h5]
  note r1 = session_result [OF h1 h2 h3 h5 h5]
  have st: "statuses (fst (snd ?R1)) =
       [(''alpha'', Processing), (''alpha'', Success), (''beta'', Processing), (''beta'', Success),
        (''gamma'', Processing), (''gamma'', Skipped)]"
    by code_simp
  have t1: "tally (\<lambda>s. s = Success) (fst (snd ?R1)) = 2"
    and t2: "tally (\<lambda>s. s = Skipped) (fst (snd ?R1)) = 1"
    unfolding tally_def st by simp_all
  have len: "length (map octo_info [''alpha'', ''beta'', ''gamma'']) = 3" by simp
  have c: "fst ?R = Some (Inr False) \<and> last (fst (snd ?R)) = Output (LogSummary 2 1)"
    using r len t1 t2 by simp
  have c1: "fst ?R1 = Some (Inr False) \<and> last (fst (snd ?R1)) = Output (LogSummary 2 1)"
    using r1 len t1 t2 by simp
  have q: "statuses (fst (snd ?R)) = []"
    using r by simp
  have wd: "snd (snd ?R1) =
       [''/backup/alpha'', ''/backup/alpha/.git'', ''/backup/beta'', ''/backup/beta/.git'', ''/backup/gamma'']"
    by code_simp
  have wd': "snd (snd ?R) =
       [''/backup/alpha'', ''/backup/alpha/.git'', ''/backup/beta'', ''/backup/beta/.git'', ''/backup/gamma'']"
    using r wd by simp
  show ?thesis
    using h1 h3 st q c wd' c1
    by (intro conjI) (assumption, assumption, assumption, assumption, simp, simp, assumption, simp, simp)
qed

subsection \<open>C2: two status events for every repository\<close>

text \<open>
  C2. For a repository whose name is a string, \<^verbatim>\<open>clone_or_pull\<close> invokes a
  supplied status callback exactly twice: the first event of the call reports
  processing, before the log line and the subprocess; the last event of the call
  reports one of success, failed and skipped; no status event lies between them,
  and after the call the status kept for the repository is that last one. Without
  a status callback there is no status event. Hence, over a non-empty listing of
  such repositories, a session reports processing once and a last status once
  for every repository, and when it returns no repository is left in processing.
\<close>

theorem status_twice:
  "(name repo = JStr n \<longrightarrow>
      (\<exists>t mid. t \<noteq> Processing
         \<and> fst (snd (clone_or_pull env repo base True ocb w)) = Status n Processing # mid @ [Status n t]
         \<and> statuses mid = []
         \<and> statuses (fst (snd (clone_or_pull env repo base True ocb w))) = [(n, Processing), (n, t)]
         \<and> status_map (statuses (fst (snd (clone_or_pull env repo base True ocb w)))) m n = Some t)
      \<and> statuses (fst (snd (clone_or_pull env repo base False ocb w))) = [])
   \<and> (get_user_repos fuel (urlopen env) u tok = (reqs, Some (Inr repos)) \<and> repos \<noteq> []
        \<and> map name repos = map JStr ns \<longrightarrow>
      tally (\<lambda>s. s = Processing) (fst (snd (process_repos env fuel u base' tok True ocb' w0)))
        = length repos
      \<and> tally (\<lambda>s. s \<noteq> Processing) (fst (snd (process_repos env fuel u base' tok True ocb' w0)))
        = length repos
      \<and> (\<forall>k. status_map (statuses (fst (snd (process_repos env fuel u base' tok True ocb' w0))))
               Map.empty k \<noteq> Some Processing))"
proof (intro conjI impI)
  assume n: "name repo = JStr n"
  from clone_or_pull_shape [OF n, of env base ocb w]
  obtain b t mid w' where run: "clone_or_pull env repo base True ocb w =
      (Inr b, Status n Processing # mid @ [Status n t], w')"
    and mid: "statuses mid = []" and t: "t \<noteq> Processing"
    by blast
  have sts: "statuses (fst (snd (clone_or_pull env repo base True ocb w))) = [(n, Processing), (n, t)]"
    unfolding run using mid by (simp add: read_events)
  have "status_map (statuses (fst (snd (clone_or_pull env repo base True ocb w)))) m n = Some t"
    unfolding sts by simp
  then show "\<exists>t mid. t \<noteq> Processing
         \<and> fst (snd (clone_or_pull env repo base True ocb w)) = Status n Processing # mid @ [Status n t]
         \<and> statuses mid = []
         \<and> statuses (fst (snd (clone_or_pull env repo base True ocb w))) = [(n, Processing), (n, t)]
         \<and> status_map (statuses (fst (snd (clone_or_pull env repo base True ocb w)))) m n = Some t"
    using t run mid sts by (intro exI [of _ t] exI [of _ mid]) simp
  obtain r ev w'' where off: "clone_or_pull env repo base False ocb w = (r, ev, w'')"
    by (metis prod.exhaust)
  show "statuses (fst (snd (clone_or_pull env repo base False ocb w))) = []"
    using clone_or_pull_statuses [OF n off] off by auto
next
  assume a: "get_user_repos fuel (urlopen env) u tok = (reqs, Some (Inr repos)) \<and> repos \<noteq> []
        \<and> map name repos = map JStr ns"
  let ?ev = "fst (snd (process_repos env fuel u base' tok True ocb' w0))"
  from a have l: "get_user_repos fuel (urlopen env) u tok = (reqs, Some (Inr repos))"
    and ne: "repos \<noteq> []" and nm: "map name repos = map JStr ns"
    by simp_all
  from session_events [OF l ne nm, of base' ocb' w0]
  obtain ts ev1 w1 where len: "length ts = length repos" and np: "Processing \<notin> set ts"
    and st: "statuses ev1 = status_pairs ns ts"
    and run: "process_repos env fuel u base' tok True ocb' w0 =
               (Some (Inr (length (filter (\<lambda>t. t \<noteq> Success) ts) = 0)),
                output_event ocb' (LogFetching u) @ map Request reqs
                  @ output_event ocb' (LogFound (length repos)) @ ev1
                  @ output_event ocb' (LogSummary (length (filter (\<lambda>t. t = Success) ts))
                       (length (filter (\<lambda>t. t \<noteq> Success) ts))),
                w1)"
    by blast
  have sts: "statuses ?ev = status_pairs ns ts"
    unfolding run using st by (simp add: read_events)
  have lens: "length ns = length ts"
  proof -
    have "length (map name repos) = length (map JStr ns)"
      using nm by simp
    then show ?thesis using len by simp
  qed
  have no: "filter (\<lambda>s. s = Processing) ts = []" "filter (\<lambda>s. s \<noteq> Processing) ts = ts"
    using np by (auto simp: filter_empty_conv filter_id_conv)
  show "tally (\<lambda>s. s = Processing) ?ev = length repos"
    using tally_status_pairs [OF sts lens, of "\<lambda>s. s = Processing"] no len by simp
  show "tally (\<lambda>s. s \<noteq> Processing) ?ev = length repos"
    using tally_status_pairs [OF sts lens, of "\<lambda>s. s \<noteq> Processing"] no len by simp
  show "\<forall>k. status_map (statuses ?ev) Map.empty k \<noteq> Some Processing"
    unfolding sts by (rule status_map_pairs [OF lens np]) simp
qed

text \<open>The clone of alpha on the concrete machine, and the session over the three repositories.\<close>

theorem status_twice_witness:
  "name (octo_info ''alpha'') = JStr ''alpha''
   \<and> fst (snd (clone_or_pull demo_env (octo_info ''alpha'') ''/backup'' True True backup_dirs)) =
       [Status ''alpha'' Processing,
        Output (LogClone (JStr ''https://github.com/octo/alpha.git'') ''/backup/alpha''),
        RunGit [JStr ''git'', JStr ''clone'', JStr ''https://github.com/octo/alpha.git'', JStr ''/backup/alpha''] None,
        Output (LogLine ''Cloning into /backup/alpha...''), Output (LogLine ''done.''),
        Status ''alpha'' Success]
   \<and> (\<exists>t mid. t \<noteq> Processing
         \<and> fst (snd (clone_or_pull demo_env (octo_info ''alpha'') ''/backup'' True True backup_dirs)) =
             Status ''alpha'' Processing # mid @ [Status ''alpha'' t]
         \<and> statuses mid = []
         \<and> statuses (fst (snd (clone_or_pull demo_env (octo_info ''alpha'') ''/backup'' True True backup_dirs))) =
             [(''alpha'', Processing), (''alpha'', t)]
         \<and> status_map (statuses (fst (snd (clone_or_pull demo_env (octo_info ''alpha'') ''/backup'' True True backup_dirs))))
             Map.empty ''alpha'' = Some t)
   \<and> get_user_repos 2 (urlopen demo_env) ''octo'' None =
       (map (mk_request ''octo'' None) [1..<Suc 2],
        Some (Inr (map octo_info [''alpha'', ''beta'', ''gamma''])))
   \<and> map name (map octo_info [''alpha'', ''beta'', ''gamma'']) = map JStr [''alpha'', ''beta'', ''gamma'']
   \<and> tally (\<lambda>s. s = Processing)
         (fst (snd (process_repos demo_env 2 ''octo'' ''/backup'' None True True backup_dirs))) = 3
   \<and> tally (\<lambda>s. s \<noteq> Processing)
         (fst (snd (process_repos demo_env 2 ''octo'' ''/backup'' None True True backup_dirs))) = 3"
proof -
  have na: "name (octo_info ''alpha'') = JStr ''alpha''"
    by (simp add: octo_info_def)
  have ev: "fst (snd (clone_or_pull demo_env (octo_info ''alpha'') ''/backup'' True True backup_dirs)) =
       [Status ''alpha'' Processing,
        Output (LogClone (JStr ''https://github.com/octo/alpha.git'') ''/backup/alpha''),
        RunGit [JStr ''git'', JStr ''clone'', JStr ''https://github.com/octo/alpha.git'', JStr ''/backup/alpha''] None,
        Output (LogLine ''Cloning into /backup/alpha...''), Output (LogLine ''done.''),
        Status ''alpha'' Success]"
    by code_simp
  have h1: "get_user_repos 2 (urlopen demo_env) ''octo'' None =
     (map (mk_request ''octo'' None) [1..<Suc 2],
      Some (Inr (map octo_info [''alpha'', ''beta'', ''gamma''])))"
    by code_simp
  have h2: "map octo_info [''alpha'', ''beta'', ''gamma''] \<noteq> []" by simp
  have h3: "map name (map octo_info [''alpha'', ''beta'', ''gamma'']) = map JStr [''alpha'', ''beta'', ''gamma'']"
    by (simp add: octo_info_def)
  note a = status_twice [where env = demo_env and repo = "octo_info ''alpha''" and n = "''alpha''"
      and base = "''/backup''" and ocb = True and w = backup_dirs and m = Map.empty,
      THEN conjunct1, rule_format, OF na, THEN conjunct1]
  note b = status_twice [where env = demo_env and fuel = 2 and u = "''octo''" and tok = None
      and base' = "''/backup''" and ocb' = True and ?w0.0 = backup_dirs,
      THEN conjunct2, rule_format, OF conjI, OF h1, OF conjI, OF h2 h3]
  have c1: "tally (\<lambda>s. s = Processing)
         (fst (snd (process_repos demo_env 2 ''octo'' ''/backup'' None True True backup_dirs))) = 3"
    using b by simp
  have c2: "tally (\<lambda>s. s \<noteq> Processing)
         (fst (snd (process_repos demo_env 2 ''octo'' ''/backup'' None True True backup_dirs))) = 3"
    using b by simp
  show ?thesis
    using na ev a h1 h3 c1 c2 by (intro conjI) assumption+
qed

subsection \<open>C3: clone, pull or skip\<close>



subsection \<open>C4: pagination\<close>

text \<open>
  C4. Pagination in \<^verbatim>\<open>get_user_repos\<close> terminates. Let the server have a listing
  of \<open>N\<close> pages: every page before the last is a non-empty array with a next
  link, and page \<open>N\<close> is an array that is empty or has no next link (a shorter
  last page, or the empty page fetched after a last full page whose header still
  announced a next page). Then, with fuel for \<open>N\<close> iterations, the client
  returns; it has sent exactly \<open>N\<close> requests, the \<open>i\<close>-th for page \<open>i\<close>
  with a page size of 100, and it returns the repositories of the pages
  concatenated in page order. The client does not look at the number of elements
  of a page, so this holds for pages of 100 elements as for any others.
\<close>

theorem pagination_terminates:
  assumes "1 \<le> N"
    and "list_all (\<lambda>p. more_page (fetch (mk_request u t p)) (rs p)) [1..<N]"
    and "last_page (fetch (mk_request u t N)) (rs N)"
    and "N \<le> fuel"
  shows "get_user_repos fuel fetch u t =
           (map (mk_request u t) [1..<Suc N], Some (Inr (concat (map rs [1..<Suc N]))))
         \<and> length (fst (get_user_repos fuel fetch u t)) = N
         \<and> (\<forall>i<N. url (fst (get_user_repos fuel fetch u t) ! i) =
               ''https://api.github.com/users/'' @ u @ ''/repos?page='' @ str_nat (Suc i)
                 @ ''&per_page=100'')"
proof -
  obtain d where N: "N = Suc d"
    using assms(1) by (cases N) auto
  define f where "f = fuel - N"
  have fuel: "fuel = d + Suc f"
    using assms(4) N by (simp add: f_def)
  have pre: "\<forall>q. 1 \<le> q \<and> q < 1 + d \<longrightarrow> more_page (fetch (mk_request u t q)) (rs q)"
    using assms(2) N by (simp add: list_all_iff del: upt_Suc)
  have "get_user_repos fuel fetch u t =
        get_user_repos_loop (Suc f) fetch u t (1 + d) ([] @ concat (map rs [1..<1 + d]))
          ([] @ map (mk_request u t) [1..<1 + d])"
    unfolding get_user_repos_def fuel by (rule loop_advance [OF pre])
  also have "\<dots> = (map (mk_request u t) [1..<1 + d] @ [mk_request u t N],
                    Some (Inr (concat (map rs [1..<1 + d]) @ rs N)))"
    using loop_last_page [of fetch u t N "rs N" f] assms(3) N by simp
  also have "\<dots> = (map (mk_request u t) [1..<Suc N], Some (Inr (concat (map rs [1..<Suc N]))))"
    using N by simp
  finally have main: "get_user_repos fuel fetch u t =
      (map (mk_request u t) [1..<Suc N], Some (Inr (concat (map rs [1..<Suc N]))))" .
  have hundred: "str_nat per_page = ''100''"
    unfolding per_page_def by code_simp
  have urls: "\<forall>i<N. url (map (mk_request u t) [1..<Suc N] ! i) =
               ''https://api.github.com/users/'' @ u @ ''/repos?page='' @ str_nat (Suc i)
                 @ ''&per_page=100''"
  proof (intro allI impI)
    fix i assume "i < N"
    then have "map (mk_request u t) [1..<Suc N] ! i = mk_request u t (Suc i)"
      by (simp add: nth_upt del: upt_Suc)
    then show "url (map (mk_request u t) [1..<Suc N] ! i) =
               ''https://api.github.com/users/'' @ u @ ''/repos?page='' @ str_nat (Suc i)
                 @ ''&per_page=100''"
      by (simp add: mk_request_def hundred)
  qed
  show ?thesis
    unfolding main using urls by simp
qed

text \<open>
  A first page of 100 repositories with a next link and a second page of one
  repository: two requests, 101 repositories.
\<close>

theorem pagination_terminates_witness:
  "(1::nat) \<le> 2
   \<and> list_all (\<lambda>p. more_page (full_urlopen (mk_request ''octo'' None p)) (full_rs p)) [1..<2]
   \<and> last_page (full_urlopen (mk_request ''octo'' None 2)) (full_rs 2)
   \<and> get_user_repos 2 full_urlopen ''octo'' None =
       (map (mk_request ''octo'' None) [1..<Suc 2], Some (Inr (concat (map full_rs [1..<Suc 2]))))
   \<and> length (fst (get_user_repos 2 full_urlopen ''octo'' None)) = 2"
proof -
  have h1: "(1::nat) \<le> 2" by simp
  have p1: "more_page (full_urlopen (mk_request ''octo'' None 1)) (full_rs 1)"
    by code_simp
  have h2: "list_all (\<lambda>p. more_page (full_urlopen (mk_request ''octo'' None p)) (full_rs p)) [1..<2]"
  proof -
    have "[1..<2] = [1::nat]" by code_simp
    then show ?thesis using p1 by simp
  qed
  have h3: "last_page (full_urlopen (mk_request ''octo'' None 2)) (full_rs 2)"
    by code_simp
  have h4: "(2::nat) \<le> 2" by simp
  note r = pagination_terminates [where N = 2 and fetch = full_urlopen and u = "''octo''" and t = None
      and rs = full_rs and fuel = 2, OF h1 h2 h3 h4]
  have c1: "get_user_repos 2 full_urlopen ''octo'' None =
       (map (mk_request ''octo'' None) [1..<Suc 2], Some (Inr (concat (map full_rs [1..<Suc 2]))))"
    using r by (rule conjunct1)
  have c2: "length (fst (get_user_repos 2 full_urlopen ''octo'' None)) = 2"
    using r by (elim conjE)
  show ?thesis
    by (intro conjI) (rule h1, rule h2, rule h3, rule c1, rule c2)
qed

subsection \<open>C5: a listing request answered with 404\<close>

text \<open>
  C5. When a listing request fails with HTTP 404 (the first one, or the request
  for page \<open>k\<close> after \<open>k - 1\<close> pages with a next link), \<^verbatim>\<open>get_user_repos\<close>
  fails with the error of line 80 (the user does not exist or has no public
  repositories), and \<^verbatim>\<open>process_repos\<close> logs the error and returns false at once:
  its events are the announcement, the requests and the error line, so there is
  no status event and no invocation of the command runner, and the machine is
  left as it was.
\<close>

theorem user_not_found:
  assumes "list_all (\<lambda>p. more_page (urlopen env (mk_request u t p)) (rs p)) [1..<k]"
    and "1 \<le> k"
    and "urlopen env (mk_request u t k) = Raises (HTTPError 404 text)"
    and "k \<le> fuel"
  shows "get_user_repos fuel (urlopen env) u t =
           (map (mk_request u t) [1..<Suc k], Some (Inl (UserNotFound u)))
         \<and> process_repos env fuel u base t scb ocb w =
             (Some (Inr False),
              output_event ocb (LogFetching u) @ map Request (map (mk_request u t) [1..<Suc k])
                @ output_event ocb (LogError (UserNotFound u)),
              w)
         \<and> statuses (fst (snd (process_repos env fuel u base t scb ocb w))) = []
         \<and> git_runs (fst (snd (process_repos env fuel u base t scb ocb w))) = []"
proof -
  have "get_user_repos fuel (urlopen env) u t =
        get_user_repos_loop (Suc (fuel - k)) (urlopen env) u t k (concat (map rs [1..<k]))
          (map (mk_request u t) [1..<k])"
    by (rule listing_at_page [OF assms(1, 2, 4)])
  also have "\<dots> = (map (mk_request u t) [1..<k] @ [mk_request u t k],
                    Some (Inl (handle_exn u (HTTPError 404 text))))"
    using assms(3) by (simp add: Let_def)
  also have "\<dots> = (map (mk_request u t) [1..<Suc k], Some (Inl (UserNotFound u)))"
    using assms(2) by simp
  finally have listing: "get_user_repos fuel (urlopen env) u t =
      (map (mk_request u t) [1..<Suc k], Some (Inl (UserNotFound u)))" .
  note run = process_repos_failed [OF listing, of base scb ocb w]
  show ?thesis
    unfolding run using listing by (simp add: read_events del: map_map upt_Suc)
qed

text \<open>A first page with a next link, and 404 for the second page.\<close>

theorem user_not_found_witness:
  "list_all (\<lambda>p. more_page (urlopen gone_env (mk_request ''octo'' None p)) (octo_rs p)) [1..<2]
   \<and> urlopen gone_env (mk_request ''octo'' None 2) = Raises (HTTPError 404 ''HTTP Error 404: Not Found'')
   \<and> process_repos gone_env 2 ''octo'' ''/backup'' None True True backup_dirs =
       (Some (Inr False),
        [Output (LogFetching ''octo''),
         Request (mk_request ''octo'' None 1), Request (mk_request ''octo'' None 2),
         Output (LogError (UserNotFound ''octo''))],
        backup_dirs)"
proof -
  have iv: "[1..<2] = [1::nat]" "[1..<Suc 2] = [1::nat, 2]" by code_simp+
  have p1: "more_page (urlopen gone_env (mk_request ''octo'' None 1)) (octo_rs 1)"
    by code_simp
  have h1: "list_all (\<lambda>p. more_page (urlopen gone_env (mk_request ''octo'' None p)) (octo_rs p)) [1..<2]"
    unfolding iv using p1 by simp
  have h2: "(1::nat) \<le> 2" by simp
  have h3: "urlopen gone_env (mk_request ''octo'' None 2) = Raises (HTTPError 404 ''HTTP Error 404: Not Found'')"
    by code_simp
  have h4: "(2::nat) \<le> 2" by simp
  note r = user_not_found [where env = gone_env and u = "''octo''" and t = None and rs = octo_rs
      and k = 2 and fuel = 2 and base = "''/backup''" and scb = True and ocb = True
      and w = backup_dirs, OF h1 h2 h3 h4]
  have c: "process_repos gone_env 2 ''octo'' ''/backup'' None True True backup_dirs =
       (Some (Inr False),
        [Output (LogFetching ''octo''),
         Request (mk_request ''octo'' None 1), Request (mk_request ''octo'' None 2),
         Output (LogError (UserNotFound ''octo''))],
        backup_dirs)"
    using r unfolding iv by (simp add: output_event_def)
  show ?thesis
    by (intro conjI) (rule h1, rule h3, rule c)
qed

subsection \<open>C6: the command runner\<close>

text \<open>
  C6. \<^verbatim>\<open>run_git_command\<close> raises nothing: in each of the ways in which the
  subprocess can behave, it returns a pair. When the launch fails (an argument
  that is not a string, or \<^verbatim>\<open>Popen\<close> raising) or reading the output fails, the
  pair is false with the description of the exception. Otherwise the flag is
  true exactly when the return code is zero, the lines of the merged output,
  with their trailing whitespace removed, are passed to the output callback in
  the order in which the subprocess wrote them, and the same lines joined by
  newlines are the second component.
\<close>

theorem command_runner_contract:
  "(argv_of cmd = None \<longrightarrow>
      run_git_command env cmd cwd ocb w = ((False, ErrorDescription TypeError), [RunGit cmd cwd], w))
   \<and> (argv_of cmd = Some argv \<and> popen env argv cwd w = (LaunchError e, w') \<longrightarrow>
      fst (run_git_command env cmd cwd ocb w) = (False, ErrorDescription e)
      \<and> outputs (fst (snd (run_git_command env cmd cwd ocb w))) = [])
   \<and> (argv_of cmd = Some argv \<and> popen env argv cwd w = (ReadError ls e, w') \<longrightarrow>
      fst (run_git_command env cmd cwd ocb w) = (False, ErrorDescription e)
      \<and> outputs (fst (snd (run_git_command env cmd cwd True w))) = map (\<lambda>l. LogLine (rstrip l)) ls)
   \<and> (argv_of cmd = Some argv \<and> popen env argv cwd w = (Exited ls rc, w') \<longrightarrow>
      fst (run_git_command env cmd cwd ocb w) = (rc = 0, Combined (join_lines (map rstrip ls)))
      \<and> outputs (fst (snd (run_git_command env cmd cwd True w))) = map (\<lambda>l. LogLine (rstrip l)) ls
      \<and> outputs (fst (snd (run_git_command env cmd cwd False w))) = []
      \<and> snd (snd (run_git_command env cmd cwd ocb w)) = w')"
proof (intro conjI impI)
  assume "argv_of cmd = None"
  then show "run_git_command env cmd cwd ocb w =
      ((False, ErrorDescription TypeError), [RunGit cmd cwd], w)"
    by (simp add: run_git_command_def)
next
  assume a: "argv_of cmd = Some argv \<and> popen env argv cwd w = (LaunchError e, w')"
  then have r: "\<And>cb. run_git_command env cmd cwd cb w =
      ((False, ErrorDescription e), [RunGit cmd cwd], w')"
    by (simp add: run_git_command_launch)
  show "fst (run_git_command env cmd cwd ocb w) = (False, ErrorDescription e)"
    and "outputs (fst (snd (run_git_command env cmd cwd ocb w))) = []"
    by (simp_all add: r)
next
  assume a: "argv_of cmd = Some argv \<and> popen env argv cwd w = (ReadError ls e, w')"
  then have r: "\<And>cb. run_git_command env cmd cwd cb w =
      ((False, ErrorDescription e),
       RunGit cmd cwd # concat (map (\<lambda>l. output_event cb (LogLine (rstrip l))) ls), w')"
    by (simp add: run_git_command_read)
  show "fst (run_git_command env cmd cwd ocb w) = (False, ErrorDescription e)"
    and "outputs (fst (snd (run_git_command env cmd cwd True w))) = map (\<lambda>l. LogLine (rstrip l)) ls"
    by (simp_all add: r read_events)
next
  assume a: "argv_of cmd = Some argv \<and> popen env argv cwd w = (Exited ls rc, w')"
  then have r: "\<And>cb. run_git_command env cmd cwd cb w =
      ((rc = 0, Combined (join_lines (map rstrip ls))),
       RunGit cmd cwd # concat (map (\<lambda>l. output_event cb (LogLine (rstrip l))) ls), w')"
    by (simp add: run_git_command_exit)
  show "fst (run_git_command env cmd cwd ocb w) = (rc = 0, Combined (join_lines (map rstrip ls)))"
    and "outputs (fst (snd (run_git_command env cmd cwd True w))) = map (\<lambda>l. LogLine (rstrip l)) ls"
    and "outputs (fst (snd (run_git_command env cmd cwd False w))) = []"
    and "snd (snd (run_git_command env cmd cwd ocb w)) = w'"
    by (simp_all add: r read_events)
qed

text \<open>
  An argument that is not a string, a launch that fails, a read that fails
  after one line, a clone that exits with 128 and a clone that exits with 0.
\<close>

theorem command_runner_contract_witness:
  "argv_of [JStr ''git'', JStr ''clone'', JNull, JStr ''/backup/alpha''] = None
   \<and> run_git_command demo_env [JStr ''git'', JStr ''clone'', JNull, JStr ''/backup/alpha''] None True backup_dirs =
       ((False, ErrorDescription TypeError),
        [RunGit [JStr ''git'', JStr ''clone'', JNull, JStr ''/backup/alpha''] None], backup_dirs)
   \<and> fst (run_git_command nogit_env clone_alpha None True backup_dirs) =
       (False, ErrorDescription (OtherException ''[Errno 2] No such file or directory: git''))
   \<and> fst (run_git_command garbled_env clone_alpha None True backup_dirs) =
       (False, ErrorDescription (OtherException ''codec cannot decode byte''))
   \<and> outputs (fst (snd (run_git_command garbled_env clone_alpha None True backup_dirs))) =
       [LogLine ''remote: Counting objects'']
   \<and> fst (run_git_command demo_env clone_delta None True backup_dirs) =
       (False, Combined ''fatal: repository not found'')
   \<and> outputs (fst (snd (run_git_command demo_env clone_delta None True backup_dirs))) =
       [LogLine ''fatal: repository not found'']
   \<and> fst (run_git_command demo_env clone_alpha None True backup_dirs) =
       (True, Combined (''Cloning into /backup/alpha...'' @ [CHR 0x0A] @ ''done.''))
   \<and> outputs (fst (snd (run_git_command demo_env clone_alpha None True backup_dirs))) =
       [LogLine ''Cloning into /backup/alpha...'', LogLine ''done.'']"
proof -
  have av: "argv_of clone_alpha =
      Some [''git'', ''clone'', ''https://github.com/octo/alpha.git'', ''/backup/alpha'']"
    and dv: "argv_of clone_delta =
      Some [''git'', ''clone'', ''https://github.com/octo/delta.git'', ''/backup/delta'']"
    and nv: "argv_of [JStr ''git'', JStr ''clone'', JNull, JStr ''/backup/alpha''] = None"
    by (simp_all add: clone_alpha_def clone_delta_def)
  have l: "popen nogit_env [''git'', ''clone'', ''https://github.com/octo/alpha.git'', ''/backup/alpha'']
      None backup_dirs =
      (LaunchError (OtherException ''[Errno 2] No such file or directory: git''), backup_dirs)"
    by (simp add: nogit_env_def)
  have g: "popen garbled_env [''git'', ''clone'', ''https://github.com/octo/alpha.git'', ''/backup/alpha'']
      None backup_dirs =
      (ReadError [''remote: Counting objects  ''] (OtherException ''codec cannot decode byte''), backup_dirs)"
    by (simp add: garbled_env_def)
  have d: "popen demo_env [''git'', ''clone'', ''https://github.com/octo/delta.git'', ''/backup/delta'']
      None backup_dirs = (Exited [''fatal: repository not found  ''] 128, backup_dirs)"
    by (simp add: demo_env_def demo_popen_def)
  have a: "popen demo_env [''git'', ''clone'', ''https://github.com/octo/alpha.git'', ''/backup/alpha'']
      None backup_dirs =
      (Exited [''Cloning into /backup/alpha...  '', ''done.''] 0,
       ''/backup/alpha'' # ''/backup/alpha/.git'' # backup_dirs)"
    by (simp add: demo_env_def demo_popen_def)
  have strip: "rstrip ''remote: Counting objects  '' = ''remote: Counting objects''"
    "rstrip ''fatal: repository not found  '' = ''fatal: repository not found''"
    "rstrip ''Cloning into /backup/alpha...  '' = ''Cloning into /backup/alpha...''"
    "rstrip ''done.'' = ''done.''"
    by code_simp+
  note t0 = command_runner_contract [where env = demo_env
      and cmd = "[JStr ''git'', JStr ''clone'', JNull, JStr ''/backup/alpha'']"
      and cwd = None and ocb = True and w = backup_dirs]
  note t1 = command_runner_contract [where env = nogit_env and cmd = clone_alpha and cwd = None
      and ocb = True and w = backup_dirs, THEN conjunct2, THEN conjunct1, rule_format, OF conjI, OF av l]
  note t2 = command_runner_contract [where env = garbled_env and cmd = clone_alpha and cwd = None
      and ocb = True and w = backup_dirs, THEN conjunct2, THEN conjunct2, THEN conjunct1,
      rule_format, OF conjI, OF av g]
  note t3 = command_runner_contract [where env = demo_env and cmd = clone_delta and cwd = None
      and ocb = True and w = backup_dirs, THEN conjunct2, THEN conjunct2, THEN conjunct2,
      rule_format, OF conjI, OF dv d]
  note t4 = command_runner_contract [where env = demo_env and cmd = clone_alpha and cwd = None
      and ocb = True and w = backup_dirs, THEN conjunct2, THEN conjunct2, THEN conjunct2,
      rule_format, OF conjI, OF av a]
  have c0: "run_git_command demo_env [JStr ''git'', JStr ''clone'', JNull, JStr ''/backup/alpha''] None True backup_dirs =
       ((False, ErrorDescription TypeError),
        [RunGit [JStr ''git'', JStr ''clone'', JNull, JStr ''/backup/alpha''] None], backup_dirs)"
    using t0 nv by blast
  have c1: "fst (run_git_command nogit_env clone_alpha None True backup_dirs) =
       (False, ErrorDescription (OtherException ''[Errno 2] No such file or directory: git''))"
    using t1 by simp
  have c2: "fst (run_git_command garbled_env clone_alpha None True backup_dirs) =
       (False, ErrorDescription (OtherException ''codec cannot decode byte''))"
    and c3: "outputs (fst (snd (run_git_command garbled_env clone_alpha None True backup_dirs))) =
       [LogLine ''remote: Counting objects'']"
    using t2 by (simp_all add: strip)
  have c4: "fst (run_git_command demo_env clone_delta None True backup_dirs) =
       (False, Combined ''fatal: repository not found'')"
    and c5: "outputs (fst (snd (run_git_command demo_env clone_delta None True backup_dirs))) =
       [LogLine ''fatal: repository not found'']"
    using t3 by (simp_all add: strip)
  have c6: "fst (run_git_command demo_env clone_alpha None True backup_dirs) =
       (True, Combined (''Cloning into /backup/alpha...'' @ [CHR 0x0A] @ ''done.''))"
    and c7: "outputs (fst (snd (run_git_command demo_env clone_alpha None True backup_dirs))) =
       [LogLine ''Cloning into /backup/alpha...'', LogLine ''done.'']"
    using t4 by (simp_all add: strip)
  show ?thesis
    by (intro conjI) (rule nv, rule c0, rule c1, rule c2, rule c3, rule c4, rule c5, rule c6, rule c7)
qed

subsection \<open>C7: the rate limit\<close>

text \<open>
  C7. When a listing request fails with HTTP 403 and the text of the error
  contains \<^verbatim>\<open>rate limit\<close>, \<^verbatim>\<open>get_user_repos\<close> fails with the error of line 82
  (the rate limit is used up; try later or use a token). Every HTTP error that is
  neither this one nor a 404 gives the error of line 84, which carries the text
  of the HTTP error, and the two errors are different.
\<close>

theorem rate_limited:
  assumes "list_all (\<lambda>p. more_page (fetch (mk_request u t p)) (rs p)) [1..<k]"
    and "1 \<le> k"
    and "fetch (mk_request u t k) = Raises (HTTPError code text)"
    and "k \<le> fuel"
  shows "(code = 403 \<and> contains ''rate limit'' text \<longrightarrow>
            snd (get_user_repos fuel fetch u t) = Some (Inl RateLimited))
         \<and> (code \<noteq> 404 \<and> \<not> (code = 403 \<and> contains ''rate limit'' text) \<longrightarrow>
            snd (get_user_repos fuel fetch u t) = Some (Inl (APIRequestFailed text)))
         \<and> RateLimited \<noteq> APIRequestFailed text"
proof -
  have "get_user_repos fuel fetch u t =
        get_user_repos_loop (Suc (fuel - k)) fetch u t k (concat (map rs [1..<k]))
          (map (mk_request u t) [1..<k])"
    by (rule listing_at_page [OF assms(1, 2, 4)])
  also have "\<dots> = (map (mk_request u t) [1..<k] @ [mk_request u t k],
                    Some (Inl (handle_exn u (HTTPError code text))))"
    using assms(3) by (simp add: Let_def)
  finally have "snd (get_user_repos fuel fetch u t) = Some (Inl (handle_exn u (HTTPError code text)))"
    by simp
  then show ?thesis by simp
qed

text \<open>A 403 with the rate limit in its reason, and a 403 without it.\<close>

theorem rate_limited_witness:
  "limited_urlopen (mk_request ''octo'' None 1) = Raises (HTTPError 403 ''HTTP Error 403: rate limit exceeded'')
   \<and> contains ''rate limit'' ''HTTP Error 403: rate limit exceeded''
   \<and> snd (get_user_repos 1 limited_urlopen ''octo'' None) = Some (Inl RateLimited)
   \<and> forbidden_urlopen (mk_request ''octo'' None 1) = Raises (HTTPError 403 ''HTTP Error 403: Forbidden'')
   \<and> \<not> contains ''rate limit'' ''HTTP Error 403: Forbidden''
   \<and> snd (get_user_repos 1 forbidden_urlopen ''octo'' None) =
       Some (Inl (APIRequestFailed ''HTTP Error 403: Forbidden''))"
proof -
  have iv: "[1..<1] = ([]::nat list)" by simp
  have h1: "list_all (\<lambda>p. more_page (limited_urlopen (mk_request ''octo'' None p)) (octo_rs p)) [1..<1]"
    and h1': "list_all (\<lambda>p. more_page (forbidden_urlopen (mk_request ''octo'' None p)) (octo_rs p)) [1..<1]"
    by simp_all
  have h2: "(1::nat) \<le> 1" by simp
  have h3: "limited_urlopen (mk_request ''octo'' None 1) = Raises (HTTPError 403 ''HTTP Error 403: rate limit exceeded'')"
    by (simp add: limited_urlopen_def)
  have h3': "forbidden_urlopen (mk_request ''octo'' None 1) = Raises (HTTPError 403 ''HTTP Error 403: Forbidden'')"
    by (simp add: forbidden_urlopen_def)
  have yes: "contains ''rate limit'' ''HTTP Error 403: rate limit exceeded''"
    by code_simp
  have no: "\<not> contains ''rate limit'' ''HTTP Error 403: Forbidden''"
    by code_simp
  note a = rate_limited [where fetch = limited_urlopen and u = "''octo''" and t = None and rs = octo_rs
      and k = 1 and fuel = 1, OF h1 h2 h3 h2]
  note b = rate_limited [where fetch = forbidden_urlopen and u = "''octo''" and t = None and rs = octo_rs
      and k = 1 and fuel = 1, OF h1' h2 h3' h2]
  have c1: "snd (get_user_repos 1 limited_urlopen ''octo'' None) = Some (Inl RateLimited)"
    using a yes by blast
  have c2: "snd (get_user_repos 1 forbidden_urlopen ''octo'' None) =
       Some (Inl (APIRequestFailed ''HTTP Error 403: Forbidden''))"
    using b no by simp
  show ?thesis
    by (intro conjI) (rule h3, rule yes, rule c1, rule h3', rule no, rule c2)
qed

subsection \<open>C8: the token\<close>

text \<open>
  C8, as amended. If a token that is not empty is supplied, every listing
  request, whatever the number of pages and also in a run that does not end,
  carries the header \<^verbatim>\<open>Authorization\<close> with the text \<^verbatim>\<open>token\<close>, a space and the
  token. The program itself writes the token into no log line: in two runs that
  differ in the token only, and in which the transport answers every page alike,
  the result, the log lines, the status events, the invocations of the command
  runner and the machine at the end are the same. The text of an exception of
  the transport that is not an HTTP error is logged as it is.
\<close>

theorem token_confined:
  "(tok \<noteq> [] \<longrightarrow>
      list_all (\<lambda>r. headers r = [(''Authorization'', ''token '' @ tok)])
        (requests (fst (snd (process_repos env fuel u base (Some tok) scb ocb w)))))
   \<and> ((\<forall>p. urlopen env (mk_request u t1 p) = urlopen env (mk_request u t2 p)) \<longrightarrow>
        fst (process_repos env fuel u base t1 scb ocb w) = fst (process_repos env fuel u base t2 scb ocb w)
        \<and> outputs (fst (snd (process_repos env fuel u base t1 scb ocb w))) =
            outputs (fst (snd (process_repos env fuel u base t2 scb ocb w)))
        \<and> statuses (fst (snd (process_repos env fuel u base t1 scb ocb w))) =
            statuses (fst (snd (process_repos env fuel u base t2 scb ocb w)))
        \<and> git_runs (fst (snd (process_repos env fuel u base t1 scb ocb w))) =
            git_runs (fst (snd (process_repos env fuel u base t2 scb ocb w)))
        \<and> snd (snd (process_repos env fuel u base t1 scb ocb w)) =
            snd (snd (process_repos env fuel u base t2 scb ocb w)))"
proof (intro conjI impI)
  assume tok: "tok \<noteq> []"
  have "list_all (\<lambda>r. r \<in> set [] \<or> r \<in> range (mk_request u (Some tok)))
      (fst (get_user_repos fuel (urlopen env) u (Some tok)))"
    unfolding get_user_repos_def by (rule loop_requests)
  then have "list_all (\<lambda>r. headers r = [(''Authorization'', ''token '' @ tok)])
      (fst (get_user_repos fuel (urlopen env) u (Some tok)))"
    using tok by (auto simp: list_all_iff mk_request_def)
  then show "list_all (\<lambda>r. headers r = [(''Authorization'', ''token '' @ tok)])
      (requests (fst (snd (process_repos env fuel u base (Some tok) scb ocb w))))"
    by (simp only: requests_process_repos)
next
  assume same: "\<forall>p. urlopen env (mk_request u t1 p) = urlopen env (mk_request u t2 p)"
  obtain reqs1 r1 where g1: "get_user_repos fuel (urlopen env) u t1 = (reqs1, r1)"
    by (cases "get_user_repos fuel (urlopen env) u t1") auto
  obtain reqs2 r2 where g2: "get_user_repos fuel (urlopen env) u t2 = (reqs2, r2)"
    by (cases "get_user_repos fuel (urlopen env) u t2") auto
  have "snd (get_user_repos fuel (urlopen env) u t1) = snd (get_user_repos fuel (urlopen env) u t2)"
    unfolding get_user_repos_def by (rule loop_two_tokens [OF same])
  then have "r1 = r2" using g1 g2 by simp
  then have g2': "get_user_repos fuel (urlopen env) u t2 = (reqs2, r1)"
    using g2 by simp
  note eq = process_repos_two_listings [OF g1 g2', of base scb ocb w]
  show "fst (process_repos env fuel u base t1 scb ocb w) = fst (process_repos env fuel u base t2 scb ocb w)"
    and "outputs (fst (snd (process_repos env fuel u base t1 scb ocb w))) =
            outputs (fst (snd (process_repos env fuel u base t2 scb ocb w)))"
    and "statuses (fst (snd (process_repos env fuel u base t1 scb ocb w))) =
            statuses (fst (snd (process_repos env fuel u base t2 scb ocb w)))"
    and "git_runs (fst (snd (process_repos env fuel u base t1 scb ocb w))) =
            git_runs (fst (snd (process_repos env fuel u base t2 scb ocb w)))"
    and "snd (snd (process_repos env fuel u base t1 scb ocb w)) =
            snd (snd (process_repos env fuel u base t2 scb ocb w))"
    using eq by simp_all
qed

text \<open>Two tokens on the concrete machine, whose server does not look at the headers.\<close>

theorem token_confined_witness:
  "''ghp_one'' \<noteq> []
   \<and> list_all (\<lambda>r. headers r = [(''Authorization'', ''token ghp_one'')])
       (requests (fst (snd (process_repos demo_env 2 ''octo'' ''/backup'' (Some ''ghp_one'') True True backup_dirs))))
   \<and> length (requests (fst (snd (process_repos demo_env 2 ''octo'' ''/backup'' (Some ''ghp_one'') True True backup_dirs)))) = 2
   \<and> (\<forall>p. urlopen demo_env (mk_request ''octo'' (Some ''ghp_one'') p) =
            urlopen demo_env (mk_request ''octo'' (Some ''ghp_two'') p))
   \<and> outputs (fst (snd (process_repos demo_env 2 ''octo'' ''/backup'' (Some ''ghp_one'') True True backup_dirs))) =
       outputs (fst (snd (process_repos demo_env 2 ''octo'' ''/backup'' (Some ''ghp_two'') True True backup_dirs)))
   \<and> fst (process_repos demo_env 2 ''octo'' ''/backup'' (Some ''ghp_one'') True True backup_dirs) =
       fst (process_repos demo_env 2 ''octo'' ''/backup'' (Some ''ghp_two'') True True backup_dirs)"
proof -
  have h1: "''ghp_one'' \<noteq> []" by simp
  have h2: "\<forall>p. urlopen demo_env (mk_request ''octo'' (Some ''ghp_one'') p) =
            urlopen demo_env (mk_request ''octo'' (Some ''ghp_two'') p)"
    by (simp add: demo_env_def octo_urlopen_def mk_request_def)
  note a = token_confined [where tok = "''ghp_one''" and env = demo_env and fuel = 2 and u = "''octo''"
      and base = "''/backup''" and scb = True and ocb = True and w = backup_dirs,
      THEN conjunct1, rule_format, OF h1]
  note b = token_confined [where ?t1.0 = "Some ''ghp_one''" and ?t2.0 = "Some ''ghp_two''"
      and env = demo_env and fuel = 2 and u = "''octo''"
      and base = "''/backup''" and scb = True and ocb = True and w = backup_dirs,
      THEN conjunct2, THEN mp, OF h2]
  have c1: "list_all (\<lambda>r. headers r = [(''Authorization'', ''token ghp_one'')])
       (requests (fst (snd (process_repos demo_env 2 ''octo'' ''/backup'' (Some ''ghp_one'') True True backup_dirs))))"
    using a by simp
  have c2: "length (requests (fst (snd (process_repos demo_env 2 ''octo'' ''/backup'' (Some ''ghp_one'') True True backup_dirs)))) = 2"
    by code_simp
  have c3: "outputs (fst (snd (process_repos demo_env 2 ''octo'' ''/backup'' (Some ''ghp_one'') True True backup_dirs))) =
       outputs (fst (snd (process_repos demo_env 2 ''octo'' ''/backup'' (Some ''ghp_two'') True True backup_dirs)))"
    using b by (elim conjE)
  have c4: "fst (process_repos demo_env 2 ''octo'' ''/backup'' (Some ''ghp_one'') True True backup_dirs) =
       fst (process_repos demo_env 2 ''octo'' ''/backup'' (Some ''ghp_two'') True True backup_dirs)"
    using b by (elim conjE)
  show ?thesis
    using h1 c1 c2 h2 c3 c4 by (intro conjI) assumption+
qed

text \<open>
  C8 as it is stated does not hold: the text of an exception raised by the
  transport reaches the log (lines 85, 86 and 162 to 164). With a token that
  ends in a carriage return, as read from a file with Windows line ends, the
  transport refuses the header and quotes it, so the error line shows the token,
  and the logs of two runs that differ in the token only are different.
\<close>

theorem token_in_log_counterexample:
  "outputs (fst (snd (process_repos strict_env 2 ''octo'' ''/backup''
       (Some (''ghp_s3cret'' @ [CHR 0x0D])) True True backup_dirs))) =
     [LogFetching ''octo'',
      LogError (TransportError (OtherException
        (''Invalid header value b'' @ [CHR 0x27] @ ''token ghp_s3cret'' @ [CHR 0x5C] @ ''r'' @ [CHR 0x27])))]
   \<and> contains ''ghp_s3cret''
       (''Invalid header value b'' @ [CHR 0x27] @ ''token ghp_s3cret'' @ [CHR 0x5C] @ ''r'' @ [CHR 0x27])
   \<and> outputs (fst (snd (process_repos strict_env 2 ''octo'' ''/backup''
       (Some (''ghp_0ther'' @ [CHR 0x0D])) True True backup_dirs))) \<noteq>
     outputs (fst (snd (process_repos strict_env 2 ''octo'' ''/backup''
       (Some (''ghp_s3cret'' @ [CHR 0x0D])) True True backup_dirs)))"
proof -
  have a: "outputs (fst (snd (process_repos strict_env 2 ''octo'' ''/backup''
       (Some (''ghp_s3cret'' @ [CHR 0x0D])) True True backup_dirs))) =
     [LogFetching ''octo'',
      LogError (TransportError (OtherException
        (''Invalid header value b'' @ [CHR 0x27] @ ''token ghp_s3cret'' @ [CHR 0x5C] @ ''r'' @ [CHR 0x27])))]"
    by code_simp
  have b: "contains ''ghp_s3cret''
       (''Invalid header value b'' @ [CHR 0x27] @ ''token ghp_s3cret'' @ [CHR 0x5C] @ ''r'' @ [CHR 0x27])"
    by code_simp
  have c: "outputs (fst (snd (process_repos strict_env 2 ''octo'' ''/backup''
       (Some (''ghp_0ther'' @ [CHR 0x0D])) True True backup_dirs))) \<noteq>
     outputs (fst (snd (process_repos strict_env 2 ''octo'' ''/backup''
       (Some (''ghp_s3cret'' @ [CHR 0x0D])) True True backup_dirs)))"
    by code_simp
  show ?thesis
    using a b c by (intro conjI) assumption+
qed

subsection \<open>C9: a skipped repository returns false\<close>



subsection \<open>C10: the listing is all or nothing\<close>

text \<open>
  C10. If the request for page \<open>k\<close> raises, or its body cannot be read, parsed
  or iterated, or one of its elements has no \<^verbatim>\<open>name\<close> or no \<^verbatim>\<open>clone_url\<close>, also
  after \<open>k - 1\<close> pages that were fetched well, then \<^verbatim>\<open>get_user_repos\<close>
  raises: its result is an error and no list. \<^verbatim>\<open>process_repos\<close> then logs the
  error and returns false, with no status event, no invocation of the command
  runner and the machine left as it was. An array with an object that lacks one
  of the two keys is such a page.
\<close>

theorem listing_all_or_nothing:
  assumes "list_all (\<lambda>p. more_page (urlopen env (mk_request u t p)) (rs p)) [1..<k]"
    and "1 \<le> k"
    and "page_error (urlopen env (mk_request u t k))"
    and "k \<le> fuel"
  shows "(\<exists>e. get_user_repos fuel (urlopen env) u t =
               (map (mk_request u t) [1..<Suc k], Some (Inl e))
             \<and> process_repos env fuel u base t scb ocb w =
                 (Some (Inr False),
                  output_event ocb (LogFetching u) @ map Request (map (mk_request u t) [1..<Suc k])
                    @ output_event ocb (LogError e),
                  w))
         \<and> statuses (fst (snd (process_repos env fuel u base t scb ocb w))) = []
         \<and> git_runs (fst (snd (process_repos env fuel u base t scb ocb w))) = []
         \<and> (\<forall>items kvs link_header.
               JObj kvs \<in> set items \<and> (map_of kvs ''name'' = None \<or> map_of kvs ''clone_url'' = None)
               \<longrightarrow> page_error (Response (Json (JArr items)) link_header))"
proof -
  have "get_user_repos fuel (urlopen env) u t =
        get_user_repos_loop (Suc (fuel - k)) (urlopen env) u t k (concat (map rs [1..<k]))
          (map (mk_request u t) [1..<k])"
    by (rule listing_at_page [OF assms(1, 2, 4)])
  moreover obtain e where "get_user_repos_loop (Suc (fuel - k)) (urlopen env) u t k
      (concat (map rs [1..<k])) (map (mk_request u t) [1..<k]) =
      (map (mk_request u t) [1..<k] @ [mk_request u t k], Some (Inl e))"
    using loop_page_error [of "urlopen env" u t k "fuel - k" "concat (map rs [1..<k])"
        "map (mk_request u t) [1..<k]"] assms(3) by blast
  ultimately have listing: "get_user_repos fuel (urlopen env) u t =
      (map (mk_request u t) [1..<Suc k], Some (Inl e))"
    using assms(2) by simp
  note run = process_repos_failed [OF listing, of base scb ocb w]
  have quiet: "statuses (fst (snd (process_repos env fuel u base t scb ocb w))) = []"
    "git_runs (fst (snd (process_repos env fuel u base t scb ocb w))) = []"
    unfolding run by (simp_all add: read_events del: map_map upt_Suc)
  have keys: "\<forall>items kvs link_header.
      JObj kvs \<in> set items \<and> (map_of kvs ''name'' = None \<or> map_of kvs ''clone_url'' = None)
      \<longrightarrow> page_error (Response (Json (JArr items)) link_header)"
    using missing_key_page_error by blast
  show ?thesis
    using listing run quiet keys by blast
qed

text \<open>A good first page, and a second page whose second element has no \<^verbatim>\<open>clone_url\<close>.\<close>

theorem listing_all_or_nothing_witness:
  "list_all (\<lambda>p. more_page (urlopen broken_env (mk_request ''octo'' None p)) (octo_rs p)) [1..<2]
   \<and> urlopen broken_env (mk_request ''octo'' None 2) =
       Response (Json (JArr [octo_repo ''gamma'', JObj [(''name'', JStr ''delta'')]])) None
   \<and> page_error (urlopen broken_env (mk_request ''octo'' None 2))
   \<and> (\<exists>e. get_user_repos 2 (urlopen broken_env) ''octo'' None =
             (map (mk_request ''octo'' None) [1..<Suc 2], Some (Inl e))
           \<and> process_repos broken_env 2 ''octo'' ''/backup'' None True True backup_dirs =
               (Some (Inr False),
                output_event True (LogFetching ''octo'')
                  @ map Request (map (mk_request ''octo'' None) [1..<Suc 2])
                  @ output_event True (LogError e),
                backup_dirs))
   \<and> snd (get_user_repos 2 (urlopen broken_env) ''octo'' None) =
       Some (Inl (TransportError (KeyError ''clone_url'')))
   \<and> map_of [(''name'', JStr ''delta'')] ''clone_url'' = None
   \<and> page_error (Response (Json (JArr [octo_repo ''gamma'', JObj [(''name'', JStr ''delta'')]])) None)"
proof -
  have iv: "[1..<2] = [1::nat]" by code_simp
  have p1: "more_page (urlopen broken_env (mk_request ''octo'' None 1)) (octo_rs 1)"
    by code_simp
  have h1: "list_all (\<lambda>p. more_page (urlopen broken_env (mk_request ''octo'' None p)) (octo_rs p)) [1..<2]"
    unfolding iv using p1 by simp
  have h2: "(1::nat) \<le> 2" by simp
  have pg: "urlopen broken_env (mk_request ''octo'' None 2) =
       Response (Json (JArr [octo_repo ''gamma'', JObj [(''name'', JStr ''delta'')]])) None"
    by code_simp
  have h3: "page_error (urlopen broken_env (mk_request ''octo'' None 2))"
    by code_simp
  have h4: "(2::nat) \<le> 2" by simp
  note r = listing_all_or_nothing [where env = broken_env and u = "''octo''" and t = None
      and rs = octo_rs and k = 2 and fuel = 2 and base = "''/backup''" and scb = True and ocb = True
      and w = backup_dirs, OF h1 h2 h3 h4]
  have c1: "\<exists>e. get_user_repos 2 (urlopen broken_env) ''octo'' None =
             (map (mk_request ''octo'' None) [1..<Suc 2], Some (Inl e))
           \<and> process_repos broken_env 2 ''octo'' ''/backup'' None True True backup_dirs =
               (Some (Inr False),
                output_event True (LogFetching ''octo'')
                  @ map Request (map (mk_request ''octo'' None) [1..<Suc 2])
                  @ output_event True (LogError e),
                backup_dirs)"
    using r by (rule conjunct1)
  have c2: "snd (get_user_repos 2 (urlopen broken_env) ''octo'' None) =
       Some (Inl (TransportError (KeyError ''clone_url'')))"
    by code_simp
  have k: "\<forall>items kvs link_header.
      JObj kvs \<in> set items \<and> (map_of kvs ''name'' = None \<or> map_of kvs ''clone_url'' = None)
      \<longrightarrow> page_error (Response (Json (JArr items)) link_header)"
    using r by (elim conjE)
  have c3: "map_of [(''name'', JStr ''delta'')] ''clone_url'' = None"
    by simp
  have m: "JObj [(''name'', JStr ''delta'')] \<in> set [octo_repo ''gamma'', JObj [(''name'', JStr ''delta'')]]"
    by simp
  have c4: "page_error (Response (Json (JArr [octo_repo ''gamma'', JObj [(''name'', JStr ''delta'')]])) None)"
    using k m c3 by blast
  show ?thesis
    by (intro conjI) (rule h1, rule pg, rule h3, rule c1, rule c2, rule c3, rule c4)
qed

end
